theory Spec2Isabelle
  imports Main "HOL-Library.Word"
begin

unbundle bit_operations_syntax

section \<open>BitMap: words, indices and the bitmap value\<close>

text \<open>
  The embedding follows \<^verbatim>\<open>src/hotspot/share/utilities/bitMap.cpp\<close> on an LP64
  platform: \<^verbatim>\<open>bm_word_t\<close> is \<^verbatim>\<open>uintptr_t\<close>, a 64-bit word, and \<^verbatim>\<open>idx_t\<close> is
  \<^verbatim>\<open>size_t\<close>, modelled as \<open>nat\<close> with the wrap-around modulo \<open>2 ^ 64\<close> written out
  (\<open>idx_wrap\<close>) wherever the source adds to or shifts an index.
\<close>

type_synonym bm_word_t = "64 word"
type_synonym idx_t = nat

definition BitsPerWord :: nat where
  "BitsPerWord = 64"

definition LogBitsPerWord :: nat where
  "LogBitsPerWord = 6"

definition idx_wrap :: "nat \<Rightarrow> idx_t" where
  "idx_wrap n = n mod 2 ^ 64"

text \<open>
  A \<^verbatim>\<open>BitMap\<close> object is the pair of its fields \<^verbatim>\<open>_map\<close> and \<^verbatim>\<open>_size\<close>. The storage
  \<^verbatim>\<open>_map\<close> points to is the list of its words; a \<^verbatim>\<open>NULL\<close> map is the empty list.
\<close>

record BitMap =
  bm_map :: "bm_word_t list"
  bm_size :: idx_t

subsection \<open>Index arithmetic of the class declaration\<close>

text \<open>
  Modelled from the spec: the helpers below are declared in \<^verbatim>\<open>bitMap.hpp\<close> and
  \<^verbatim>\<open>bitMap.inline.hpp\<close>, which are not among the source files; they are written the
  way \<^verbatim>\<open>bitMap.cpp\<close> uses them. Bit \<open>i\<close> lives in word \<open>i >> LogBitsPerWord\<close> at
  position \<open>i & (BitsPerWord - 1)\<close>, and a bitmap of \<open>size\<close> bits has
  \<open>ceil(size / word_width)\<close> words.
\<close>

definition bit_in_word :: "idx_t \<Rightarrow> idx_t" where
  "bit_in_word b = b AND (BitsPerWord - 1)"

definition bit_mask :: "idx_t \<Rightarrow> bm_word_t" where
  "bit_mask b = push_bit (bit_in_word b) 1"

definition word_index :: "idx_t \<Rightarrow> idx_t" where
  "word_index b = drop_bit LogBitsPerWord b"

definition bit_index :: "idx_t \<Rightarrow> idx_t" where
  "bit_index w = idx_wrap (push_bit LogBitsPerWord w)"

definition calc_size_in_words :: "idx_t \<Rightarrow> idx_t" where
  "calc_size_in_words size_in_bits = word_index (idx_wrap (size_in_bits + BitsPerWord - 1))"

definition size_in_words :: "BitMap \<Rightarrow> idx_t" where
  "size_in_words bm = calc_size_in_words (bm_size bm)"

definition word_index_round_up :: "BitMap \<Rightarrow> idx_t \<Rightarrow> idx_t" where
  "word_index_round_up bm b =
     (let bit_rounded_up = idx_wrap (b + (BitsPerWord - 1))
      in if bit_rounded_up > b then word_index bit_rounded_up else size_in_words bm)"

definition bm_at :: "BitMap \<Rightarrow> idx_t \<Rightarrow> bool" where
  "bm_at bm i = ((bm_map bm ! word_index i) AND bit_mask i \<noteq> 0)"

definition inverted_bit_mask_for_range :: "idx_t \<Rightarrow> idx_t \<Rightarrow> bm_word_t" where
  "inverted_bit_mask_for_range beg end =
     (let mask = bit_mask beg - 1
      in if bit_in_word end \<noteq> 0 then mask OR NOT (bit_mask end - 1) else mask)"

text \<open>
  Modelled from the spec: the whole-word middle range is written one word at a time by
  \<^verbatim>\<open>set_range_of_words\<close> and \<^verbatim>\<open>clear_range_of_words\<close> (a \<^verbatim>\<open>for\<close> loop from \<open>beg\<close> to
  \<open>end\<close>), and in one bulk fill by the \<^verbatim>\<open>large\<close> variants; all four are inline
  functions of the missing header.
\<close>

function fill_words :: "bm_word_t \<Rightarrow> bm_word_t list \<Rightarrow> idx_t \<Rightarrow> idx_t \<Rightarrow> bm_word_t list" where
  "fill_words v m i end = (if i < end then fill_words v (m[i := v]) (Suc i) end else m)"
  by pat_completeness auto
termination
  by (relation "measure (\<lambda>(v, m, i, end). end - i)") auto

declare fill_words.simps [simp del]

definition set_range_of_words :: "BitMap \<Rightarrow> idx_t \<Rightarrow> idx_t \<Rightarrow> BitMap" where
  "set_range_of_words bm beg end = bm\<lparr>bm_map := fill_words (- 1) (bm_map bm) beg end\<rparr>"

definition clear_range_of_words_map :: "bm_word_t list \<Rightarrow> idx_t \<Rightarrow> idx_t \<Rightarrow> bm_word_t list" where
  "clear_range_of_words_map m beg end = fill_words 0 m beg end"

definition clear_range_of_words :: "BitMap \<Rightarrow> idx_t \<Rightarrow> idx_t \<Rightarrow> BitMap" where
  "clear_range_of_words bm beg end =
     bm\<lparr>bm_map := clear_range_of_words_map (bm_map bm) beg end\<rparr>"

definition bulk_fill :: "bm_word_t \<Rightarrow> bm_word_t list \<Rightarrow> idx_t \<Rightarrow> idx_t \<Rightarrow> bm_word_t list" where
  "bulk_fill v m beg end =
     take beg m @ replicate (min end (length m) - beg) v @ drop (max beg end) m"

definition set_large_range_of_words :: "BitMap \<Rightarrow> idx_t \<Rightarrow> idx_t \<Rightarrow> BitMap" where
  "set_large_range_of_words bm beg end = bm\<lparr>bm_map := bulk_fill (- 1) (bm_map bm) beg end\<rparr>"

definition clear_large_range_of_words :: "BitMap \<Rightarrow> idx_t \<Rightarrow> idx_t \<Rightarrow> BitMap" where
  "clear_large_range_of_words bm beg end = bm\<lparr>bm_map := bulk_fill 0 (bm_map bm) beg end\<rparr>"

subsection \<open>Range operations of bitMap.cpp\<close>

text \<open>
  \<^verbatim>\<open>verify_range\<close> is the debug-build assertion of the source; its condition is the
  hypothesis "valid range" of the theorems below.
\<close>

definition verify_index :: "BitMap \<Rightarrow> idx_t \<Rightarrow> bool" where
  "verify_index bm index = (index < bm_size bm)"

definition verify_range :: "BitMap \<Rightarrow> idx_t \<Rightarrow> idx_t \<Rightarrow> bool" where
  "verify_range bm beg_index end_index =
     (beg_index \<le> end_index \<and> (if end_index \<noteq> bm_size bm then verify_index bm end_index else True))"

definition set_range_within_word :: "BitMap \<Rightarrow> idx_t \<Rightarrow> idx_t \<Rightarrow> BitMap" where
  "set_range_within_word bm beg end =
     (if beg \<noteq> end
      then let mask = inverted_bit_mask_for_range beg end
           in bm\<lparr>bm_map := (bm_map bm)[word_index beg := (bm_map bm ! word_index beg) OR NOT mask]\<rparr>
      else bm)"

definition clear_range_within_word :: "BitMap \<Rightarrow> idx_t \<Rightarrow> idx_t \<Rightarrow> BitMap" where
  "clear_range_within_word bm beg end =
     (if beg \<noteq> end
      then let mask = inverted_bit_mask_for_range beg end
           in bm\<lparr>bm_map := (bm_map bm)[word_index beg := (bm_map bm ! word_index beg) AND mask]\<rparr>
      else bm)"

definition set_range :: "BitMap \<Rightarrow> idx_t \<Rightarrow> idx_t \<Rightarrow> BitMap" where
  "set_range bm beg end =
     (let beg_full_word = word_index_round_up bm beg;
          end_full_word = word_index end
      in if beg_full_word < end_full_word
         then let bm1 = set_range_within_word bm beg (bit_index beg_full_word);
                  bm2 = set_range_of_words bm1 beg_full_word end_full_word
              in set_range_within_word bm2 (bit_index end_full_word) end
         else let boundary = min (bit_index beg_full_word) end;
                  bm1 = set_range_within_word bm beg boundary
              in set_range_within_word bm1 boundary end)"

definition clear_range :: "BitMap \<Rightarrow> idx_t \<Rightarrow> idx_t \<Rightarrow> BitMap" where
  "clear_range bm beg end =
     (let beg_full_word = word_index_round_up bm beg;
          end_full_word = word_index end
      in if beg_full_word < end_full_word
         then let bm1 = clear_range_within_word bm beg (bit_index beg_full_word);
                  bm2 = clear_range_of_words bm1 beg_full_word end_full_word
              in clear_range_within_word bm2 (bit_index end_full_word) end
         else let boundary = min (bit_index beg_full_word) end;
                  bm1 = clear_range_within_word bm beg boundary
              in clear_range_within_word bm1 boundary end)"

text \<open>
  \<^verbatim>\<open>small_range_words\<close> is a constant of the missing class declaration; it is the
  parameter \<open>srw\<close> here. The source asserts \<^verbatim>\<open>small_range_words >= 1\<close>.
\<close>

definition is_small_range_of_words :: "idx_t \<Rightarrow> idx_t \<Rightarrow> idx_t \<Rightarrow> bool" where
  "is_small_range_of_words srw beg_full_word end_full_word =
     (idx_wrap (beg_full_word + srw) \<ge> end_full_word)"

definition set_large_range :: "idx_t \<Rightarrow> BitMap \<Rightarrow> idx_t \<Rightarrow> idx_t \<Rightarrow> BitMap" where
  "set_large_range srw bm beg end =
     (let beg_full_word = word_index_round_up bm beg;
          end_full_word = word_index end
      in if is_small_range_of_words srw beg_full_word end_full_word
         then set_range bm beg end
         else let bm1 = set_range_within_word bm beg (bit_index beg_full_word);
                  bm2 = set_large_range_of_words bm1 beg_full_word end_full_word
              in set_range_within_word bm2 (bit_index end_full_word) end)"

definition clear_large_range :: "idx_t \<Rightarrow> BitMap \<Rightarrow> idx_t \<Rightarrow> idx_t \<Rightarrow> BitMap" where
  "clear_large_range srw bm beg end =
     (let beg_full_word = word_index_round_up bm beg;
          end_full_word = word_index end
      in if is_small_range_of_words srw beg_full_word end_full_word
         then clear_range bm beg end
         else let bm1 = clear_range_within_word bm beg (bit_index beg_full_word);
                  bm2 = clear_large_range_of_words bm1 beg_full_word end_full_word
              in clear_range_within_word bm2 (bit_index end_full_word) end)"

text \<open>
  A bitmap is well formed when its size is an \<^verbatim>\<open>idx_t\<close>, its storage has the
  \<^verbatim>\<open>size_in_words()\<close> words that \<^verbatim>\<open>reallocate\<close> gives it, and every bit index below
  \<open>size\<close> is addressable in that storage.
\<close>

definition bm_wf :: "BitMap \<Rightarrow> bool" where
  "bm_wf bm = (bm_size bm < 2 ^ 64
     \<and> length (bm_map bm) = size_in_words bm
     \<and> bm_size bm \<le> BitsPerWord * length (bm_map bm))"


subsection \<open>The tail word and the whole-bitmap operations\<close>

definition tail_mask :: "idx_t \<Rightarrow> bm_word_t" where
  "tail_mask tail_bits = push_bit tail_bits 1 - 1"

definition tail_of_map :: "bm_word_t \<Rightarrow> idx_t \<Rightarrow> bm_word_t" where
  "tail_of_map v tail_bits = v AND tail_mask tail_bits"

definition merge_tail_of_map :: "bm_word_t \<Rightarrow> bm_word_t \<Rightarrow> idx_t \<Rightarrow> bm_word_t" where
  "merge_tail_of_map new_value old_value tail_bits =
     (let mask = tail_mask tail_bits
      in (new_value AND mask) OR (old_value AND NOT mask))"

text \<open>
  The queries walk the whole words with an early return and then decide on the masked
  tail. \<open>early_return c dest other index limit\<close> is the loop
  \<^verbatim>\<open>for (; index < limit; ++index) if (c(dest[index], other[index])) return ...;\<close>
  and tells whether the \<^verbatim>\<open>return\<close> inside it was taken. The queries on one bitmap
  (\<^verbatim>\<open>is_full\<close>, \<^verbatim>\<open>is_empty\<close>) pass their words for both arguments.
\<close>

function early_return :: "(bm_word_t \<Rightarrow> bm_word_t \<Rightarrow> bool) \<Rightarrow> bm_word_t list \<Rightarrow> bm_word_t list
    \<Rightarrow> idx_t \<Rightarrow> idx_t \<Rightarrow> bool" where
  "early_return c dest other index limit =
     (if index < limit
      then (if c (dest ! index) (other ! index) then True
            else early_return c dest other (Suc index) limit)
      else False)"
  by pat_completeness auto
termination
  by (relation "measure (\<lambda>(c, dest, other, index, limit). limit - index)") auto

declare early_return.simps [simp del]

definition contains :: "BitMap \<Rightarrow> BitMap \<Rightarrow> bool" where
  "contains this other =
     (let dest_map = bm_map this; other_map = bm_map other;
          limit = word_index (bm_size this)
      in if early_return (\<lambda>d x. (NOT d AND x) \<noteq> 0) dest_map other_map 0 limit then False
         else let rest = bit_in_word (bm_size this)
              in rest = 0 \<or> tail_of_map (NOT (dest_map ! limit) AND other_map ! limit) rest = 0)"

definition intersects :: "BitMap \<Rightarrow> BitMap \<Rightarrow> bool" where
  "intersects this other =
     (let dest_map = bm_map this; other_map = bm_map other;
          limit = word_index (bm_size this)
      in if early_return (\<lambda>d x. (d AND x) \<noteq> 0) dest_map other_map 0 limit then True
         else let rest = bit_in_word (bm_size this)
              in rest > 0 \<and> tail_of_map (dest_map ! limit AND other_map ! limit) rest \<noteq> 0)"

definition is_same :: "BitMap \<Rightarrow> BitMap \<Rightarrow> bool" where
  "is_same this other =
     (let dest_map = bm_map this; other_map = bm_map other;
          limit = word_index (bm_size this)
      in if early_return (\<lambda>d x. d \<noteq> x) dest_map other_map 0 limit then False
         else let rest = bit_in_word (bm_size this)
              in rest = 0 \<or> tail_of_map (dest_map ! limit XOR other_map ! limit) rest = 0)"

definition is_full :: "BitMap \<Rightarrow> bool" where
  "is_full this =
     (let words = bm_map this;
          limit = word_index (bm_size this)
      in if early_return (\<lambda>d x. NOT d \<noteq> 0) words words 0 limit then False
         else let rest = bit_in_word (bm_size this)
              in rest = 0 \<or> tail_of_map (NOT (words ! limit)) rest = 0)"

definition is_empty :: "BitMap \<Rightarrow> bool" where
  "is_empty this =
     (let words = bm_map this;
          limit = word_index (bm_size this)
      in if early_return (\<lambda>d x. d \<noteq> 0) words words 0 limit then False
         else let rest = bit_in_word (bm_size this)
              in rest = 0 \<or> tail_of_map (words ! limit) rest = 0)"

text \<open>
  The mutating set operations combine the whole words in a loop and then merge the tail
  word. \<open>combine_words op\<close> is the loop
  \<^verbatim>\<open>for (; index < limit; ++index) dest[index] = op(dest[index], other[index]);\<close>
  and \<open>combine_words_with_result\<close> the same loop with the \<^verbatim>\<open>changed\<close> flag of the
  \<^verbatim>\<open>_with_result\<close> variants.
\<close>

function combine_words :: "(bm_word_t \<Rightarrow> bm_word_t \<Rightarrow> bm_word_t) \<Rightarrow> bm_word_t list
    \<Rightarrow> bm_word_t list \<Rightarrow> idx_t \<Rightarrow> idx_t \<Rightarrow> bm_word_t list" where
  "combine_words op dest other index limit =
     (if index < limit
      then combine_words op (dest[index := op (dest ! index) (other ! index)]) other (Suc index) limit
      else dest)"
  by pat_completeness auto
termination
  by (relation "measure (\<lambda>(op, dest, other, index, limit). limit - index)") auto

declare combine_words.simps [simp del]

function combine_words_with_result :: "(bm_word_t \<Rightarrow> bm_word_t \<Rightarrow> bm_word_t) \<Rightarrow> bool
    \<Rightarrow> bm_word_t list \<Rightarrow> bm_word_t list \<Rightarrow> idx_t \<Rightarrow> idx_t \<Rightarrow> bool \<times> bm_word_t list" where
  "combine_words_with_result op changed dest other index limit =
     (if index < limit
      then let orig = dest ! index;
               temp = op orig (other ! index)
           in combine_words_with_result op (changed \<or> temp \<noteq> orig) (dest[index := temp]) other
                (Suc index) limit
      else (changed, dest))"
  by pat_completeness auto
termination
  by (relation "measure (\<lambda>(op, changed, dest, other, index, limit). limit - index)") auto

declare combine_words_with_result.simps [simp del]

definition set_union :: "BitMap \<Rightarrow> BitMap \<Rightarrow> BitMap" where
  "set_union this other =
     (let other_map = bm_map other;
          limit = word_index (bm_size this);
          dest_map = combine_words (\<lambda>d x. d OR x) (bm_map this) other_map 0 limit;
          rest = bit_in_word (bm_size this)
      in if rest > 0
         then let orig = dest_map ! limit
              in this\<lparr>bm_map := dest_map[limit := merge_tail_of_map (orig OR other_map ! limit) orig rest]\<rparr>
         else this\<lparr>bm_map := dest_map\<rparr>)"

definition set_difference :: "BitMap \<Rightarrow> BitMap \<Rightarrow> BitMap" where
  "set_difference this other =
     (let other_map = bm_map other;
          limit = word_index (bm_size this);
          dest_map = combine_words (\<lambda>d x. d AND NOT x) (bm_map this) other_map 0 limit;
          rest = bit_in_word (bm_size this)
      in if rest > 0
         then let orig = dest_map ! limit
              in this\<lparr>bm_map := dest_map[limit := merge_tail_of_map (orig AND NOT (other_map ! limit)) orig rest]\<rparr>
         else this\<lparr>bm_map := dest_map\<rparr>)"

definition set_intersection :: "BitMap \<Rightarrow> BitMap \<Rightarrow> BitMap" where
  "set_intersection this other =
     (let other_map = bm_map other;
          limit = word_index (bm_size this);
          dest_map = combine_words (\<lambda>d x. d AND x) (bm_map this) other_map 0 limit;
          rest = bit_in_word (bm_size this)
      in if rest > 0
         then let orig = dest_map ! limit
              in this\<lparr>bm_map := dest_map[limit := merge_tail_of_map (orig AND other_map ! limit) orig rest]\<rparr>
         else this\<lparr>bm_map := dest_map\<rparr>)"

definition set_union_with_result :: "BitMap \<Rightarrow> BitMap \<Rightarrow> bool \<times> BitMap" where
  "set_union_with_result this other =
     (let other_map = bm_map other;
          limit = word_index (bm_size this);
          (changed, dest_map) =
             combine_words_with_result (\<lambda>d x. d OR x) False (bm_map this) other_map 0 limit;
          rest = bit_in_word (bm_size this)
      in if rest > 0
         then let orig = dest_map ! limit;
                  temp = merge_tail_of_map (orig OR other_map ! limit) orig rest
              in (changed \<or> temp \<noteq> orig, this\<lparr>bm_map := dest_map[limit := temp]\<rparr>)
         else (changed, this\<lparr>bm_map := dest_map\<rparr>))"

definition set_difference_with_result :: "BitMap \<Rightarrow> BitMap \<Rightarrow> bool \<times> BitMap" where
  "set_difference_with_result this other =
     (let other_map = bm_map other;
          limit = word_index (bm_size this);
          (changed, dest_map) =
             combine_words_with_result (\<lambda>d x. d AND NOT x) False (bm_map this) other_map 0 limit;
          rest = bit_in_word (bm_size this)
      in if rest > 0
         then let orig = dest_map ! limit;
                  temp = merge_tail_of_map (orig AND NOT (other_map ! limit)) orig rest
              in (changed \<or> temp \<noteq> orig, this\<lparr>bm_map := dest_map[limit := temp]\<rparr>)
         else (changed, this\<lparr>bm_map := dest_map\<rparr>))"

definition set_intersection_with_result :: "BitMap \<Rightarrow> BitMap \<Rightarrow> bool \<times> BitMap" where
  "set_intersection_with_result this other =
     (let other_map = bm_map other;
          limit = word_index (bm_size this);
          (changed, dest_map) =
             combine_words_with_result (\<lambda>d x. d AND x) False (bm_map this) other_map 0 limit;
          rest = bit_in_word (bm_size this)
      in if rest > 0
         then let orig = dest_map ! limit;
                  temp = merge_tail_of_map (orig AND other_map ! limit) orig rest
              in (changed \<or> temp \<noteq> orig, this\<lparr>bm_map := dest_map[limit := temp]\<rparr>)
         else (changed, this\<lparr>bm_map := dest_map\<rparr>))"

text \<open>
  \<^verbatim>\<open>Copy::disjoint_words(from, to, count)\<close> copies \<open>count\<close> words from the start of one
  block to the start of another.
\<close>

definition disjoint_words :: "bm_word_t list \<Rightarrow> bm_word_t list \<Rightarrow> idx_t \<Rightarrow> bm_word_t list" where
  "disjoint_words from to count = take count from @ drop count to"

definition set_from :: "BitMap \<Rightarrow> BitMap \<Rightarrow> BitMap" where
  "set_from this other =
     (let other_map = bm_map other;
          copy_words = word_index (bm_size this);
          dest_map = disjoint_words other_map (bm_map this) copy_words;
          rest = bit_in_word (bm_size this)
      in if rest > 0
         then this\<lparr>bm_map := dest_map[copy_words :=
                 merge_tail_of_map (other_map ! copy_words) (dest_map ! copy_words) rest]\<rparr>
         else this\<lparr>bm_map := dest_map\<rparr>)"

subsection \<open>Population count\<close>

text \<open>
  \<^verbatim>\<open>num_set_bits\<close> shifts the clear low bits out in an inner loop whose only exit is a set
  low bit, so both loops are partial functions: not returning is the value \<open>None\<close>.
\<close>

partial_function (option) skip_clear_bits :: "bm_word_t \<Rightarrow> bm_word_t option" where
  "skip_clear_bits w = (if w AND 1 = 0 then skip_clear_bits (drop_bit 1 w) else Some w)"

partial_function (option) num_set_bits_loop :: "bm_word_t \<Rightarrow> idx_t \<Rightarrow> idx_t option" where
  "num_set_bits_loop w bits =
     (if w \<noteq> 0
      then Option.bind (skip_clear_bits w) (\<lambda>w'. num_set_bits_loop (drop_bit 1 w') (bits + 1))
      else Some bits)"

definition num_set_bits :: "bm_word_t \<Rightarrow> idx_t option" where
  "num_set_bits w = num_set_bits_loop w 0"

text \<open>
  \<^verbatim>\<open>init_pop_count_table\<close> fills a table of 256 entries with \<^verbatim>\<open>num_set_bits(i)\<close> and
  publishes it once; every later call finds the same table, so the table is its value.
\<close>

definition init_pop_count_table :: "idx_t list option" where
  "init_pop_count_table = those (map (\<lambda>i. num_set_bits (of_nat i)) [0..<256])"

definition num_set_bits_from_table :: "idx_t list \<Rightarrow> 8 word \<Rightarrow> idx_t" where
  "num_set_bits_from_table table c = table ! unat c"

function count_word_bytes :: "idx_t list \<Rightarrow> bm_word_t \<Rightarrow> nat \<Rightarrow> idx_t \<Rightarrow> idx_t" where
  "count_word_bytes table w j sum_bits =
     (if j < 8
      then count_word_bytes table (drop_bit 8 w) (Suc j)
             (idx_wrap (sum_bits + num_set_bits_from_table table (ucast (w AND 255))))
      else sum_bits)"
  by pat_completeness auto
termination
  by (relation "measure (\<lambda>(table, w, j, sum_bits). 8 - j)") auto

declare count_word_bytes.simps [simp del]

function count_words :: "idx_t list \<Rightarrow> bm_word_t list \<Rightarrow> idx_t \<Rightarrow> idx_t \<Rightarrow> idx_t \<Rightarrow> idx_t" where
  "count_words table m i n sum_bits =
     (if i < n then count_words table m (Suc i) n (count_word_bytes table (m ! i) 0 sum_bits) else sum_bits)"
  by pat_completeness auto
termination
  by (relation "measure (\<lambda>(table, m, i, n, sum_bits). n - i)") auto

declare count_words.simps [simp del]

definition count_one_bits :: "BitMap \<Rightarrow> idx_t option" where
  "count_one_bits bm =
     Option.bind init_pop_count_table
       (\<lambda>table. Some (count_words table (bm_map bm) 0 (size_in_words bm) 0))"

subsection \<open>Allocation and resizing\<close>

text \<open>
  The three allocator classes of \<^verbatim>\<open>bitMap.cpp\<close>. \<^verbatim>\<open>allocate\<close> returns a fresh block of
  the requested number of words, whose contents are whatever the memory holds (the
  parameter \<open>fresh\<close> gives the word found at each index). \<^verbatim>\<open>free\<close> releases the block
  for the C-heap allocator and does nothing for the resource-area and arena allocators.
  What happens to memory is recorded as a list of events. An allocation is taken to
  succeed: running out of memory ends the virtual machine and is not a result of these
  functions.
\<close>

datatype allocator = ResourceBitMapAllocator | CHeapBitMapAllocator | ArenaBitMapAllocator

datatype mem_event = Allocated idx_t | Freed idx_t

definition allocator_allocate :: "allocator \<Rightarrow> (nat \<Rightarrow> bm_word_t) \<Rightarrow> idx_t
    \<Rightarrow> bm_word_t list \<times> mem_event list" where
  "allocator_allocate a fresh n_words = (map fresh [0..<n_words], [Allocated n_words])"

fun allocator_free :: "allocator \<Rightarrow> idx_t \<Rightarrow> mem_event list" where
  "allocator_free ResourceBitMapAllocator n_words = []"
| "allocator_free CHeapBitMapAllocator n_words = [Freed n_words]"
| "allocator_free ArenaBitMapAllocator n_words = []"

text \<open>\<^verbatim>\<open>BitMap::reallocate\<close>; the test \<^verbatim>\<open>old_map != NULL\<close> is \<open>old_map \<noteq> []\<close>.\<close>

definition reallocate :: "allocator \<Rightarrow> (nat \<Rightarrow> bm_word_t) \<Rightarrow> bm_word_t list \<Rightarrow> idx_t \<Rightarrow> idx_t
    \<Rightarrow> bool \<Rightarrow> bm_word_t list \<times> mem_event list" where
  "reallocate a fresh old_map old_size_in_bits new_size_in_bits clear =
     (let old_size_in_words = calc_size_in_words old_size_in_bits;
          new_size_in_words = calc_size_in_words new_size_in_bits;
          (new_map, ev) =
            (if new_size_in_words > 0
             then let (map0, ev0) = allocator_allocate a fresh new_size_in_words;
                      map1 = (if old_map \<noteq> []
                              then disjoint_words old_map map0 (min old_size_in_words new_size_in_words)
                              else map0);
                      map2 = (if clear \<and> new_size_in_words > old_size_in_words
                              then clear_range_of_words_map map1 old_size_in_words new_size_in_words
                              else map1)
                  in (map2, ev0)
             else ([], []))
      in (new_map, ev @ (if old_map \<noteq> [] then allocator_free a old_size_in_words else [])))"

definition allocate :: "allocator \<Rightarrow> (nat \<Rightarrow> bm_word_t) \<Rightarrow> idx_t \<Rightarrow> bool
    \<Rightarrow> bm_word_t list \<times> mem_event list" where
  "allocate a fresh size_in_bits clear = reallocate a fresh [] 0 size_in_bits clear"

definition resize :: "allocator \<Rightarrow> (nat \<Rightarrow> bm_word_t) \<Rightarrow> BitMap \<Rightarrow> idx_t \<Rightarrow> bool
    \<Rightarrow> BitMap \<times> mem_event list" where
  "resize a fresh bm new_size_in_bits clear =
     (let (new_map, ev) = reallocate a fresh (bm_map bm) (bm_size bm) new_size_in_bits clear
      in (\<lparr>bm_map = new_map, bm_size = new_size_in_bits\<rparr>, ev))"

text \<open>The constructors and \<^verbatim>\<open>resize\<close> members of the two resizable classes.\<close>

definition CHeapBitMap :: "(nat \<Rightarrow> bm_word_t) \<Rightarrow> idx_t \<Rightarrow> bool \<Rightarrow> BitMap" where
  "CHeapBitMap fresh size_in_bits clear =
     \<lparr>bm_map = fst (allocate CHeapBitMapAllocator fresh size_in_bits clear), bm_size = size_in_bits\<rparr>"

definition CHeapBitMap_resize :: "(nat \<Rightarrow> bm_word_t) \<Rightarrow> BitMap \<Rightarrow> idx_t \<Rightarrow> bool
    \<Rightarrow> BitMap \<times> mem_event list" where
  "CHeapBitMap_resize fresh bm new_size_in_bits clear =
     resize CHeapBitMapAllocator fresh bm new_size_in_bits clear"

definition ResourceBitMap :: "(nat \<Rightarrow> bm_word_t) \<Rightarrow> idx_t \<Rightarrow> bool \<Rightarrow> BitMap" where
  "ResourceBitMap fresh size_in_bits clear =
     \<lparr>bm_map = fst (allocate ResourceBitMapAllocator fresh size_in_bits clear), bm_size = size_in_bits\<rparr>"

definition ResourceBitMap_resize :: "(nat \<Rightarrow> bm_word_t) \<Rightarrow> BitMap \<Rightarrow> idx_t
    \<Rightarrow> BitMap \<times> mem_event list" where
  "ResourceBitMap_resize fresh bm new_size_in_bits =
     resize ResourceBitMapAllocator fresh bm new_size_in_bits True"

subsection \<open>Iteration over the set bits\<close>

text \<open>
  A \<^verbatim>\<open>BitMapClosure\<close> is its \<^verbatim>\<open>do_bit\<close> method: called on a bit position, with the
  closure's own state and the bitmap as they are, it answers whether to go on and leaves
  both possibly changed.
\<close>

type_synonym 'c BitMapClosure = "idx_t \<Rightarrow> 'c \<Rightarrow> BitMap \<Rightarrow> bool \<times> 'c \<times> BitMap"

text \<open>
  The inner loop of \<^verbatim>\<open>BitMap::iterate\<close>, over the rest of one word. The result's first
  component is false when the closure asked to stop (the \<^verbatim>\<open>return false\<close> of the source).
\<close>

function iterate_inner :: "'c BitMapClosure \<Rightarrow> idx_t \<Rightarrow> idx_t \<Rightarrow> idx_t \<Rightarrow> bm_word_t \<Rightarrow> 'c \<Rightarrow> BitMap
    \<Rightarrow> bool \<times> 'c \<times> BitMap" where
  "iterate_inner blk rightOffset index offset rest c bm =
     (if offset < rightOffset \<and> rest \<noteq> 0
      then (if rest AND 1 \<noteq> 0
            then (case blk offset c bm of
                    (continue, c', bm') \<Rightarrow>
                      if \<not> continue then (False, c', bm')
                      else let rest' = drop_bit (offset AND (BitsPerWord - 1)) (bm_map bm' ! index)
                           in iterate_inner blk rightOffset index (Suc offset) (drop_bit 1 rest') c' bm')
            else iterate_inner blk rightOffset index (Suc offset) (drop_bit 1 rest) c bm)
      else (True, c, bm))"
  by pat_completeness auto
termination
  by (relation "measure (\<lambda>(blk, rightOffset, index, offset, rest, c, bm). rightOffset - offset)") auto

declare iterate_inner.simps [simp del]

function iterate_outer :: "'c BitMapClosure \<Rightarrow> idx_t \<Rightarrow> idx_t \<Rightarrow> idx_t \<Rightarrow> idx_t \<Rightarrow> 'c \<Rightarrow> BitMap
    \<Rightarrow> bool \<times> 'c \<times> BitMap" where
  "iterate_outer blk rightOffset endIndex index offset c bm =
     (if offset < rightOffset \<and> index < endIndex
      then let rest = drop_bit (offset AND (BitsPerWord - 1)) (bm_map bm ! index)
           in (case iterate_inner blk rightOffset index offset rest c bm of
                 (continue, c', bm') \<Rightarrow>
                   if \<not> continue then (False, c', bm')
                   else iterate_outer blk rightOffset endIndex (Suc index) (bit_index (Suc index)) c' bm')
      else (True, c, bm))"
  by pat_completeness auto
termination
  by (relation "measure (\<lambda>(blk, rightOffset, endIndex, index, offset, c, bm). endIndex - index)") auto

declare iterate_outer.simps [simp del]

definition iterate :: "'c BitMapClosure \<Rightarrow> idx_t \<Rightarrow> idx_t \<Rightarrow> 'c \<Rightarrow> BitMap \<Rightarrow> bool \<times> 'c \<times> BitMap" where
  "iterate blk leftOffset rightOffset c bm =
     (let startIndex = word_index leftOffset;
          endIndex = min (word_index rightOffset + 1) (size_in_words bm)
      in iterate_outer blk rightOffset endIndex startIndex leftOffset c bm)"

section \<open>Collection-set policy\<close>

text \<open>
  Modelled from the spec: \<^verbatim>\<open>G1Policy::calculate_old_collection_set_regions\<close> and
  \<^verbatim>\<open>G1Policy::calc_min_old_cset_length\<close> are only declared in the source files (the class
  declaration of the policy); their bodies are missing. The two passes below follow
  section 4.4 of the specification. The candidates are given by their predicted costs, in
  the order of the candidate list; the configured minimum and maximum old-region counts and
  the two time budgets are parameters. The mandatory pass walks the candidates in order and
  stops when the configured maximum count is reached or when the next region would exceed
  the mandatory budget, except that below the configured minimum count a region is taken
  whatever it costs. The optional pass goes on from the first candidate not taken, up to a
  maximum number of optional regions, while the optional budget is not exceeded. Times are
  of any type with an addition and an order, so nothing depends on their arithmetic.
\<close>

fun mandatory_pass :: "nat \<Rightarrow> nat \<Rightarrow> 't::{plus,ord} \<Rightarrow> 't list \<Rightarrow> nat \<Rightarrow> 't \<Rightarrow> nat" where
  "mandatory_pass min_old_cset_length max_old_cset_length budget [] num used = num"
| "mandatory_pass min_old_cset_length max_old_cset_length budget (cost # candidates) num used =
     (if num \<ge> max_old_cset_length then num
      else if num < min_old_cset_length
        then mandatory_pass min_old_cset_length max_old_cset_length budget candidates
               (Suc num) (used + cost)
      else if used + cost \<le> budget
        then mandatory_pass min_old_cset_length max_old_cset_length budget candidates
               (Suc num) (used + cost)
      else num)"

fun optional_pass :: "nat \<Rightarrow> 't::{plus,ord} \<Rightarrow> 't list \<Rightarrow> nat \<Rightarrow> 't \<Rightarrow> nat" where
  "optional_pass max_optional_regions budget [] num used = num"
| "optional_pass max_optional_regions budget (cost # candidates) num used =
     (if num \<ge> max_optional_regions then num
      else if used + cost \<le> budget
        then optional_pass max_optional_regions budget candidates (Suc num) (used + cost)
      else num)"

definition calculate_old_collection_set_regions ::
    "nat \<Rightarrow> nat \<Rightarrow> nat \<Rightarrow> 't::{plus,ord,zero} \<Rightarrow> 't \<Rightarrow> 't list \<Rightarrow> nat \<times> nat" where
  "calculate_old_collection_set_regions min_old_cset_length max_old_cset_length
       max_optional_regions mandatory_budget optional_budget candidates =
     (let num_initial_regions =
            mandatory_pass min_old_cset_length max_old_cset_length mandatory_budget candidates 0 0;
          num_optional_regions =
            optional_pass max_optional_regions optional_budget (drop num_initial_regions candidates) 0 0
      in (num_initial_regions, num_optional_regions))"

section \<open>Atomic partial-word writes\<close>

text \<open>
  \<^verbatim>\<open>BitMap::par_put_range_within_word\<close> run by concurrent threads, in an interleaving
  model: the storage is shared, each thread is at a point of the function with its local
  variables, and a step of the system is a step of one thread. The plain read of the word
  and \<^verbatim>\<open>Atomic::cmpxchg\<close> are one step each; \<^verbatim>\<open>cmpxchg\<close> stores the new value if the word
  still holds the expected one and returns what the word held.
\<close>

definition cmpxchg :: "bm_word_t list \<Rightarrow> idx_t \<Rightarrow> bm_word_t \<Rightarrow> bm_word_t
    \<Rightarrow> bm_word_t list \<times> bm_word_t" where
  "cmpxchg m pw compare_value exchange_value =
     (if m ! pw = compare_value then (m[pw := exchange_value], m ! pw) else (m, m ! pw))"

text \<open>
  The points of \<^verbatim>\<open>par_put_range_within_word\<close>: before the first read, before a
  \<^verbatim>\<open>cmpxchg\<close> with the local variables \<open>w\<close> and \<open>nw\<close>, and after the return.
\<close>

datatype par_pc = Start | Retry bm_word_t bm_word_t | Done

record par_put =
  pp_beg :: idx_t
  pp_end :: idx_t
  pp_value :: bool
  pp_pc :: par_pc

definition par_put_start :: "idx_t \<Rightarrow> idx_t \<Rightarrow> bool \<Rightarrow> par_put" where
  "par_put_start beg end v = \<lparr>pp_beg = beg, pp_end = end, pp_value = v, pp_pc = Start\<rparr>"

definition par_new_word :: "bool \<Rightarrow> bm_word_t \<Rightarrow> bm_word_t \<Rightarrow> bm_word_t" where
  "par_new_word v w mr = (if v then w OR NOT mr else w AND mr)"

fun par_put_range_within_word_step :: "BitMap \<Rightarrow> par_put \<Rightarrow> (BitMap \<times> par_put) option" where
  "par_put_range_within_word_step bm t =
     (case pp_pc t of
        Start \<Rightarrow>
          if pp_beg t \<noteq> pp_end t
          then let pw = word_index (pp_beg t);
                   w = bm_map bm ! pw;
                   mr = inverted_bit_mask_for_range (pp_beg t) (pp_end t);
                   nw = par_new_word (pp_value t) w mr
               in Some (bm, t\<lparr>pp_pc := Retry w nw\<rparr>)
          else Some (bm, t\<lparr>pp_pc := Done\<rparr>)
      | Retry w nw \<Rightarrow>
          let pw = word_index (pp_beg t);
              mr = inverted_bit_mask_for_range (pp_beg t) (pp_end t);
              (m', res) = cmpxchg (bm_map bm) pw w nw
          in if res = w then Some (bm\<lparr>bm_map := m'\<rparr>, t\<lparr>pp_pc := Done\<rparr>)
             else Some (bm\<lparr>bm_map := m'\<rparr>,
                        t\<lparr>pp_pc := Retry res (par_new_word (pp_value t) res mr)\<rparr>)
      | Done \<Rightarrow> None)"

declare par_put_range_within_word_step.simps [simp del]

text \<open>Two threads over the same bitmap: either of them takes the next step.\<close>

inductive par_step :: "BitMap \<times> par_put \<times> par_put \<Rightarrow> BitMap \<times> par_put \<times> par_put \<Rightarrow> bool" where
  first: "par_put_range_within_word_step bm t1 = Some (bm', t1') \<Longrightarrow> par_step (bm, t1, t2) (bm', t1', t2)"
| second: "par_put_range_within_word_step bm t2 = Some (bm', t2') \<Longrightarrow> par_step (bm, t1, t2) (bm', t1, t2')"

text \<open>
  A range as \<^verbatim>\<open>par_put_range_within_word\<close> requires it (the assertions of
  \<^verbatim>\<open>inverted_bit_mask_for_range\<close>): within one word, and that word in the storage.
\<close>

definition single_word_range :: "BitMap \<Rightarrow> idx_t \<Rightarrow> idx_t \<Rightarrow> bool" where
  "single_word_range bm beg end \<longleftrightarrow>
     beg \<le> end \<and> end \<le> BitsPerWord * word_index beg + BitsPerWord
     \<and> (beg = end \<or> word_index beg < length (bm_map bm))"

section \<open>Auxiliary notions of the proofs\<close>

subsection \<open>Bit-level reading of the range operations\<close>

text \<open>
  \<open>range_put v m b e m'\<close>: the storage \<open>m'\<close> is \<open>m\<close> with the bits at the positions
  of \<open>[b, e)\<close> put to \<open>v\<close> and every other bit as it was.
\<close>

definition range_put :: "bool \<Rightarrow> bm_word_t list \<Rightarrow> nat \<Rightarrow> nat \<Rightarrow> bm_word_t list \<Rightarrow> bool" where
  "range_put v m b e m' \<longleftrightarrow> length m' = length m \<and>
     (\<forall>j<length m. \<forall>k<64. bit (m' ! j) k = (if b \<le> 64 * j + k \<and> 64 * j + k < e then v else bit (m ! j) k))"

text \<open>
  \<open>in_range b e j k\<close>: bit \<open>k\<close> of word \<open>j\<close> is a position of \<open>[b, e)\<close>.
\<close>

definition in_range :: "idx_t \<Rightarrow> idx_t \<Rightarrow> nat \<Rightarrow> nat \<Rightarrow> bool" where
  "in_range b e j k \<longleftrightarrow> b \<le> 64 * j + k \<and> 64 * j + k < e"

subsection \<open>Counting\<close>

text \<open>
  The number of bits set in a word, the 256-entry table that
  \<^verbatim>\<open>init_pop_count_table\<close> is meant to hold, and the set of positions set in a storage.
\<close>

definition pop :: "bm_word_t \<Rightarrow> nat" where
  "pop w = card {k. bit w k}"

definition pop_table :: "nat list" where
  "pop_table = map (\<lambda>i. pop (of_nat i)) [0..<256]"

definition set_bits :: "bm_word_t list \<Rightarrow> nat set" where
  "set_bits m = {i. i < 64 * length m \<and> bit (m ! (i div 64)) (i mod 64)}"

subsection \<open>Relations between bitmaps\<close>

text \<open>
  \<open>is_complement c b\<close>: the two bitmaps have the same size and differ at every position
  below it. Nothing is said of the bits beyond the size.
\<close>

definition is_complement :: "BitMap \<Rightarrow> BitMap \<Rightarrow> bool" where
  "is_complement c b \<longleftrightarrow> bm_size c = bm_size b \<and> (\<forall>i<bm_size b. bm_at c i = (\<not> bm_at b i))"

text \<open>
  \<open>same_beyond_size x y\<close>: \<open>y\<close> has the size and the storage length of \<open>x\<close>, and the bits
  of the last word beyond the size are those of \<open>x\<close>.
\<close>

definition same_beyond_size :: "BitMap \<Rightarrow> BitMap \<Rightarrow> bool" where
  "same_beyond_size x y \<longleftrightarrow> bm_size y = bm_size x \<and> length (bm_map y) = length (bm_map x)
     \<and> (\<forall>i. bm_size x \<le> i \<and> i < 64 * length (bm_map x) \<longrightarrow> bm_at y i = bm_at x i)"

subsection \<open>Traversal\<close>

text \<open>
  The traversal as the specification words it, one position at a time: from \<open>offset\<close>
  up to \<open>right\<close> in increasing order, a position whose bit is set in the bitmap as it is
  at that moment is handed to the closure; the first refusal ends the traversal with
  false, and reaching \<open>right\<close> ends it with true.
\<close>

function iterate_bits :: "'c BitMapClosure \<Rightarrow> idx_t \<Rightarrow> idx_t \<Rightarrow> 'c \<Rightarrow> BitMap \<Rightarrow> bool \<times> 'c \<times> BitMap" where
  "iterate_bits blk offset right c bm =
     (if offset < right
      then (if bm_at bm offset
            then (case blk offset c bm of
                    (continue, c', bm') \<Rightarrow>
                      if \<not> continue then (False, c', bm')
                      else iterate_bits blk (Suc offset) right c' bm')
            else iterate_bits blk (Suc offset) right c bm)
      else (True, c, bm))"
  by pat_completeness auto
termination
  by (relation "measure (\<lambda>(blk, offset, right, c, bm). right - offset)") auto

declare iterate_bits.simps [simp del]

text \<open>
  A closure wrapped by \<open>logging\<close> behaves as the closure and records each call: the
  position it was given, whether the bit was set at that moment, and its answer.
\<close>

record visit =
  visit_pos :: idx_t
  visit_seen :: bool
  visit_answer :: bool

definition logging :: "'c BitMapClosure \<Rightarrow> (visit list \<times> 'c) BitMapClosure" where
  "logging blk offset lc bm =
     (case blk offset (snd lc) bm of
        (continue, c', bm') \<Rightarrow>
          (continue,
           (fst lc @ [\<lparr>visit_pos = offset, visit_seen = bm_at bm offset, visit_answer = continue\<rparr>], c'),
           bm'))"

text \<open>
  \<open>keeps_shape blk\<close>: the closure may change bits, but neither the size nor the storage
  length of the bitmap (it does not resize the bitmap under traversal).
\<close>

definition keeps_shape :: "'c BitMapClosure \<Rightarrow> bool" where
  "keeps_shape blk \<longleftrightarrow>
     (\<forall>offset c bm. bm_size (snd (snd (blk offset c bm))) = bm_size bm
        \<and> length (bm_map (snd (snd (blk offset c bm)))) = length (bm_map bm))"

text \<open>
  \<open>visits_ok left right result vs\<close>: the recorded calls are at strictly increasing
  positions of \<open>[left, right)\<close> whose bit was set when visited, every call but the last
  answered true, and the result is false exactly when the last call answered false.
\<close>

definition visits_ok :: "idx_t \<Rightarrow> idx_t \<Rightarrow> bool \<Rightarrow> visit list \<Rightarrow> bool" where
  "visits_ok left right result vs \<longleftrightarrow>
     sorted_wrt (<) (map visit_pos vs)
     \<and> list_all (\<lambda>v. left \<le> visit_pos v \<and> visit_pos v < right \<and> visit_seen v) vs
     \<and> list_all visit_answer (butlast vs)
     \<and> (result \<longleftrightarrow> vs = [] \<or> visit_answer (last vs))"

subsection \<open>Two threads on one word\<close>

text \<open>
  The bits of the storage once the threads that are done have put their ranges, for
  disjoint ranges.
\<close>

definition par_expected :: "BitMap \<Rightarrow> par_put \<Rightarrow> par_put \<Rightarrow> BitMap \<Rightarrow> bool" where
  "par_expected bm0 t1 t2 bm \<longleftrightarrow>
     bm_size bm = bm_size bm0 \<and> length (bm_map bm) = length (bm_map bm0)
     \<and> (\<forall>j<length (bm_map bm0). \<forall>k<64. bit (bm_map bm ! j) k =
          (if pp_pc t1 = Done \<and> pp_beg t1 \<le> 64 * j + k \<and> 64 * j + k < pp_end t1 then pp_value t1
           else if pp_pc t2 = Done \<and> pp_beg t2 \<le> 64 * j + k \<and> 64 * j + k < pp_end t2 then pp_value t2
           else bit (bm_map bm0 ! j) k))"

text \<open>
  What a thread holds between its read and its \<^verbatim>\<open>cmpxchg\<close>: the word it read and the
  word computed from it. \<open>par_inv\<close> is the invariant of a run started from \<open>bm0\<close>.
\<close>

definition par_local :: "par_put \<Rightarrow> bool" where
  "par_local t \<longleftrightarrow>
     (case pp_pc t of
        Retry w nw \<Rightarrow> pp_beg t \<noteq> pp_end t
          \<and> nw = par_new_word (pp_value t) w (inverted_bit_mask_for_range (pp_beg t) (pp_end t))
      | _ \<Rightarrow> True)"

definition par_inv :: "BitMap \<Rightarrow> idx_t \<Rightarrow> idx_t \<Rightarrow> bool \<Rightarrow> idx_t \<Rightarrow> idx_t \<Rightarrow> bool
    \<Rightarrow> BitMap \<times> par_put \<times> par_put \<Rightarrow> bool" where
  "par_inv bm0 b1 e1 v1 b2 e2 v2 cfg \<longleftrightarrow>
     (case cfg of (bm, t1, t2) \<Rightarrow>
        pp_beg t1 = b1 \<and> pp_end t1 = e1 \<and> pp_value t1 = v1
      \<and> pp_beg t2 = b2 \<and> pp_end t2 = e2 \<and> pp_value t2 = v2
      \<and> par_local t1 \<and> par_local t2 \<and> par_expected bm0 t1 t2 bm)"

text \<open>
  Every run of the two threads is finite: each step lowers a measure. A thread weighs 7
  before its first read, 6 before a \<^verbatim>\<open>cmpxchg\<close> that will fail, 5 before one that will
  succeed and 0 once it has returned; only a successful \<^verbatim>\<open>cmpxchg\<close> changes the word, and
  it takes 5 off its own thread while adding at most 1 to the other.
\<close>

definition par_weight :: "BitMap \<Rightarrow> par_put \<Rightarrow> nat" where
  "par_weight bm t =
     (case pp_pc t of
        Start \<Rightarrow> 7
      | Retry w nw \<Rightarrow> (if bm_map bm ! word_index (pp_beg t) = w then 5 else 6)
      | Done \<Rightarrow> 0)"

definition par_measure :: "BitMap \<times> par_put \<times> par_put \<Rightarrow> nat" where
  "par_measure cfg = (case cfg of (bm, t1, t2) \<Rightarrow> par_weight bm t1 + par_weight bm t2)"

subsection \<open>Concrete inputs\<close>

text \<open>
  Bitmaps, a closure and threads on which the operations are evaluated below.
  \<open>bm_shrunk\<close> is built by the operations themselves: two bits are allocated and set,
  then the bitmap is resized to one bit.
\<close>

definition bm_four_words :: BitMap where
  "bm_four_words = \<lparr>bm_map = [5, 0, 9, 0], bm_size = 256\<rparr>"

definition bm_one_word :: BitMap where
  "bm_one_word = \<lparr>bm_map = [1], bm_size = 64\<rparr>"

definition bm_zero_word :: BitMap where
  "bm_zero_word = \<lparr>bm_map = [0], bm_size = 64\<rparr>"

definition bm_bit0 :: BitMap where
  "bm_bit0 = \<lparr>bm_map = [1], bm_size = 1\<rparr>"

definition bm_none :: BitMap where
  "bm_none = \<lparr>bm_map = [0], bm_size = 1\<rparr>"

definition bm_dirty_tail :: BitMap where
  "bm_dirty_tail = \<lparr>bm_map = [245], bm_size = 3\<rparr>"

definition bm_three_bits :: BitMap where
  "bm_three_bits = \<lparr>bm_map = [2], bm_size = 3\<rparr>"

definition bm_eight_bits :: BitMap where
  "bm_eight_bits = \<lparr>bm_map = [1], bm_size = 8\<rparr>"

definition bm_shrunk :: BitMap where
  "bm_shrunk = fst (CHeapBitMap_resize (\<lambda>i. 0) (set_range (CHeapBitMap (\<lambda>i. 0) 2 True) 0 2) 1 True)"

definition relay_closure :: "nat BitMapClosure" where
  "relay_closure offset c bm =
     (if offset = 0 then (True, Suc c, set_range bm 2 3)
      else if offset = 2 then (False, Suc c, set_range bm 4 5)
      else (True, Suc c, bm))"

definition par_thread :: "idx_t \<Rightarrow> idx_t \<Rightarrow> par_pc \<Rightarrow> par_put" where
  "par_thread beg end pc = \<lparr>pp_beg = beg, pp_end = end, pp_value = True, pp_pc = pc\<rparr>"

section \<open>Index arithmetic and the range operations\<close>

lemmas bm_eval = bm_wf_def size_in_words_def calc_size_in_words_def
      word_index_def idx_wrap_def BitsPerWord_def LogBitsPerWord_def drop_bit_eq_div
      bit_in_word_def bit_mask_def bm_at_def

lemma bit_in_word_mod: "bit_in_word b = b mod 64"
proof -
  have "(63::nat) = mask 6" by (simp add: mask_eq_exp_minus_1)
  then have "b AND 63 = take_bit 6 b" by (simp add: take_bit_eq_mask)
  then show ?thesis by (simp add: bit_in_word_def BitsPerWord_def take_bit_eq_mod)
qed

lemma word_index_div: "word_index b = b div 64"
  by (simp add: word_index_def LogBitsPerWord_def drop_bit_eq_div)

lemma bit_mask_bit: "bit (bit_mask b) k \<longleftrightarrow> k = b mod 64"
  by (auto simp add: bit_mask_def bit_in_word_mod bit_simps)

lemma bit_mask_minus1: "bit_mask b - 1 = mask (b mod 64)"
  by (simp add: bit_mask_def bit_in_word_mod mask_eq_exp_minus_1 push_bit_eq_mult)

lemma bm_at_bit: "bm_at bm i = bit (bm_map bm ! (i div 64)) (i mod 64)"
  apply (simp add: bm_at_def word_index_div bit_mask_def bit_in_word_mod)
  by (metis and_exp_eq_0_iff_not_bit  push_bit_of_1)

lemma inverted_mask_bit:
  "bit (inverted_bit_mask_for_range b e) k \<longleftrightarrow>
     k < 64 \<and> (k < b mod 64 \<or> (e mod 64 \<noteq> 0 \<and> e mod 64 \<le> k))"
  by (auto simp add: inverted_bit_mask_for_range_def Let_def bit_mask_minus1 bit_in_word_mod bit_simps)

lemma fill_words_length: "length (fill_words v m i e) = length m"
  by (induction v m i e rule: fill_words.induct) (simp add: fill_words.simps)

lemma fill_words_nth:
  "j < length m \<Longrightarrow> fill_words v m i e ! j = (if i \<le> j \<and> j < e then v else m ! j)"
proof (induction v m i e rule: fill_words.induct)
  case (1 v m i e)
  show ?case
  proof (cases "i < e")
    case True
    then show ?thesis
      using 1 by (subst fill_words.simps) (auto simp: nth_list_update)
  next
    case False
    then show ?thesis by (subst fill_words.simps) auto
  qed
qed

lemma bulk_fill_length: "length (bulk_fill v m b e) = length m"
  by (auto simp: bulk_fill_def min_def max_def)

lemma bulk_fill_nth:
  "j < length m \<Longrightarrow> bulk_fill v m b e ! j = (if b \<le> j \<and> j < e then v else m ! j)"
  by (auto simp: bulk_fill_def nth_append min_def max_def)

lemma bulk_fill_eq: "bulk_fill v m b e = fill_words v m b e"
  by (rule nth_equalityI) (simp_all add: bulk_fill_length fill_words_length bulk_fill_nth fill_words_nth)

lemma div64_bounds:
  fixes x :: nat
  shows "64 * (x div 64) \<le> x" and "x < 64 * (x div 64) + 64"
proof -
  have "x = 64 * (x div 64) + x mod 64" by simp
  moreover have "x mod 64 < 64" by simp
  ultimately show "64 * (x div 64) \<le> x" and "x < 64 * (x div 64) + 64" by linarith+
qed

lemma same_word_arith:
  fixes b e j k :: nat
  assumes "b < e" "e \<le> 64 * (b div 64) + 64" "k < 64"
  shows "(b \<le> 64 * j + k \<and> 64 * j + k < e) \<longleftrightarrow>
         (j = b div 64 \<and> b mod 64 \<le> k \<and> (e mod 64 = 0 \<or> k < e mod 64))"
proof -
  define q where "q = b div 64"
  define r where "r = b mod 64"
  have b: "b = 64 * q + r" and r: "r < 64" by (simp_all add: q_def r_def)
  have qd: "b div 64 = q" and rd: "b mod 64 = r" by (simp_all add: q_def r_def)
  have e: "e \<le> 64 * q + 64" using assms(2) by (simp add: qd)
  define s where "s = e - 64 * q"
  have es: "e = 64 * q + s" and s: "0 < s" "s \<le> 64" using e assms(1) b by (simp_all add: s_def)
  have em: "e mod 64 = (if s = 64 then 0 else s)"
    unfolding es using s by (simp add: mod_simps)
  consider "j < q" | "j = q" | "q < j" by linarith
  then show ?thesis
  proof cases
    case 1
    then have "64 * j + k < 64 * q" using assms(3) by linarith
    with 1 show ?thesis unfolding qd rd using b by linarith
  next
    case 2
    then show ?thesis unfolding qd rd em using b es r s assms(3) by auto
  next
    case 3
    then have "64 * q + 64 \<le> 64 * j + k" by linarith
    with 3 show ?thesis unfolding qd rd using es s by linarith
  qed
qed

lemma split_full_core:
  fixes b e n B E q :: nat
  assumes "64 * B \<le> b + 63" "b + 63 < 64 * B + 64" "64 * E \<le> e" "e < 64 * E + 64"
    "64 * q \<le> b" "b < 64 * q + 64" "b \<le> e" "e \<le> 64 * n" "B < E"
  shows "b \<le> 64 * B" "64 * B \<le> 64 * q + 64" "b < 64 * B \<longrightarrow> q < n"
    "64 * B \<le> 64 * E" "64 * E < e \<longrightarrow> E < n"
proof -
  show 1: "b \<le> 64 * B" using assms by linarith
  have "64 * B < 64 * q + 128" using assms(1,6) by linarith
  then have "B < q + 2" by simp
  then have "B \<le> q + 1" by simp
  then have "64 * B \<le> 64 * (q + 1)" by (rule mult_le_mono2)
  then show "64 * B \<le> 64 * q + 64" by simp
  show 4: "64 * B \<le> 64 * E" using assms(9) by simp
  show "b < 64 * B \<longrightarrow> q < n"
  proof
    assume "b < 64 * B"
    then have "64 * q < 64 * n" using assms 4 by linarith
    then show "q < n" by simp
  qed
  show "64 * E < e \<longrightarrow> E < n"
  proof
    assume "64 * E < e"
    then have "64 * E < 64 * n" using assms by linarith
    then show "E < n" by simp
  qed
qed

lemma split_partial_core:
  fixes b e n B E q :: nat
  assumes "64 * B \<le> b + 63" "b + 63 < 64 * B + 64" "64 * E \<le> e" "e < 64 * E + 64"
    "64 * q \<le> b" "b < 64 * q + 64" "b \<le> e" "e \<le> 64 * n" "\<not> B < E"
  shows "b \<le> 64 * B" "64 * B \<le> 64 * q + 64" "b < e \<longrightarrow> q < n"
    "e \<le> 64 * B + 64" "64 * B < e \<longrightarrow> B < n"
proof -
  show "b \<le> 64 * B" using assms by linarith
  have "64 * B < 64 * q + 128" using assms(1,6) by linarith
  then have "B < q + 2" by simp
  then have "B \<le> q + 1" by simp
  then have "64 * B \<le> 64 * (q + 1)" by (rule mult_le_mono2)
  then show "64 * B \<le> 64 * q + 64" by simp
  show "b < e \<longrightarrow> q < n"
  proof
    assume "b < e"
    then have "64 * q < 64 * n" using assms by linarith
    then show "q < n" by simp
  qed
  have "64 * E \<le> 64 * B" using assms(9) by simp
  then show "e \<le> 64 * B + 64" using assms by linarith
  show "64 * B < e \<longrightarrow> B < n"
  proof
    assume "64 * B < e"
    then have "64 * B < 64 * n" using assms by linarith
    then show "B < n" by simp
  qed
qed

lemma range_put_unique:
  assumes "range_put v m b e m1" "range_put v m b e m2"
  shows "m1 = m2"
proof (rule nth_equalityI)
  show "length m1 = length m2" using assms by (simp add: range_put_def)
next
  fix j assume j: "j < length m1"
  then have jm: "j < length m" using assms by (simp add: range_put_def)
  show "m1 ! j = m2 ! j"
  proof (rule bit_word_eqI)
    fix k assume "k < LENGTH(64)"
    then have "k < 64" by simp
    then show "bit (m1 ! j) k = bit (m2 ! j) k"
      using assms jm by (simp add: range_put_def)
  qed
qed

lemma range_put_trans:
  assumes "range_put v m a b m1" "range_put v m1 b c m2" "a \<le> b" "b \<le> c"
  shows "range_put v m a c m2"
  unfolding range_put_def
proof (intro conjI allI impI)
  show "length m2 = length m" using assms(1,2) by (simp add: range_put_def)
next
  fix j k assume j: "j < length m" and k: "k < (64::nat)"
  have 1: "bit (m1 ! j) k = (if a \<le> 64 * j + k \<and> 64 * j + k < b then v else bit (m ! j) k)"
    using assms(1) j k by (simp add: range_put_def)
  have 2: "bit (m2 ! j) k = (if b \<le> 64 * j + k \<and> 64 * j + k < c then v else bit (m1 ! j) k)"
    using assms(1,2) j k by (simp add: range_put_def)
  show "bit (m2 ! j) k = (if a \<le> 64 * j + k \<and> 64 * j + k < c then v else bit (m ! j) k)"
    unfolding 2 1 using assms(3,4) by auto
qed

lemma range_put_empty: "range_put v m b b m"
  by (auto simp add: range_put_def)

lemma set_range_within_word_put:
  assumes "b \<le> e" "e \<le> 64 * (b div 64) + 64" "b < e \<longrightarrow> b div 64 < length (bm_map bm)"
  shows "range_put True (bm_map bm) b e (bm_map (set_range_within_word bm b e))"
proof (cases "b = e")
  case True
  then show ?thesis by (simp add: set_range_within_word_def range_put_empty)
next
  case False
  with assms have be: "b < e" and sw: "e \<le> 64 * (b div 64) + 64" and len: "b div 64 < length (bm_map bm)"
    by auto
  show ?thesis
    unfolding range_put_def
  proof (intro conjI allI impI)
    show "length (bm_map (set_range_within_word bm b e)) = length (bm_map bm)"
      by (simp add: set_range_within_word_def Let_def)
  next
    fix j k assume j: "j < length (bm_map bm)" and k: "k < (64::nat)"
    show "bit (bm_map (set_range_within_word bm b e) ! j) k =
          (if b \<le> 64 * j + k \<and> 64 * j + k < e then True else bit (bm_map bm ! j) k)"
      using False j k len same_word_arith[OF be sw k, of j]
      by (auto simp add: set_range_within_word_def Let_def word_index_div nth_list_update
            bit_simps inverted_mask_bit)
  qed
qed

lemma clear_range_within_word_put:
  assumes "b \<le> e" "e \<le> 64 * (b div 64) + 64" "b < e \<longrightarrow> b div 64 < length (bm_map bm)"
  shows "range_put False (bm_map bm) b e (bm_map (clear_range_within_word bm b e))"
proof (cases "b = e")
  case True
  then show ?thesis by (simp add: clear_range_within_word_def range_put_empty)
next
  case False
  with assms have be: "b < e" and sw: "e \<le> 64 * (b div 64) + 64" and len: "b div 64 < length (bm_map bm)"
    by auto
  show ?thesis
    unfolding range_put_def
  proof (intro conjI allI impI)
    show "length (bm_map (clear_range_within_word bm b e)) = length (bm_map bm)"
      by (simp add: clear_range_within_word_def Let_def)
  next
    fix j k assume j: "j < length (bm_map bm)" and k: "k < (64::nat)"
    show "bit (bm_map (clear_range_within_word bm b e) ! j) k =
          (if b \<le> 64 * j + k \<and> 64 * j + k < e then False else bit (bm_map bm ! j) k)"
      using False j k len same_word_arith[OF be sw k, of j]
      by (auto simp add: clear_range_within_word_def Let_def word_index_div nth_list_update
            bit_simps inverted_mask_bit)
  qed
qed

lemma fill_words_put:
  assumes "v = (if c then - 1 else 0)"
  shows "range_put c m (64 * b) (64 * e) (fill_words v m b e)"
  unfolding range_put_def
proof (intro conjI allI impI)
  show "length (fill_words v m b e) = length m" by (rule fill_words_length)
next
  fix j k assume j: "j < length m" and k: "k < (64::nat)"
  have "(64 * b \<le> 64 * j + k \<and> 64 * j + k < 64 * e) \<longleftrightarrow> (b \<le> j \<and> j < e)"
    using k by auto
  then show "bit (fill_words v m b e ! j) k =
       (if 64 * b \<le> 64 * j + k \<and> 64 * j + k < 64 * e then c else bit (m ! j) k)"
    using j k assms by (simp add: fill_words_nth)
qed

lemma idx_wrap_id: "n < 2 ^ 64 \<Longrightarrow> idx_wrap n = n"
  by (simp add: idx_wrap_def)

lemma bm_wf_size_bound:
  assumes "bm_wf bm"
  shows "bm_size bm + 63 < 2 ^ 64"
proof (rule ccontr)
  assume "\<not> bm_size bm + 63 < 2 ^ 64"
  then have ge: "2 ^ 64 \<le> bm_size bm + 63" by simp
  have lt: "bm_size bm < 2 ^ 64" using assms by (simp add: bm_wf_def)
  have "(bm_size bm + 63) mod 2 ^ 64 = bm_size bm + 63 - 2 ^ 64"
    using ge lt by (simp add: mod_if)
  then have "(bm_size bm + 63) mod 2 ^ 64 < 64" using lt by simp
  then have "((bm_size bm + 63) mod 2 ^ 64) div 64 = 0" by (rule div_less)
  then have "size_in_words bm = 0"
    unfolding size_in_words_def calc_size_in_words_def idx_wrap_def word_index_div BitsPerWord_def
    by (simp add: add.commute)
  then have "bm_size bm = 0" using assms by (auto simp add: bm_wf_def)
  with ge show False by simp
qed

lemma calc_size_in_words_div:
  "n + 63 < 2 ^ 64 \<Longrightarrow> calc_size_in_words n = (n + 63) div 64"
  by (simp add: calc_size_in_words_def word_index_div BitsPerWord_def idx_wrap_id)

lemma bm_wf_length:
  assumes "bm_wf bm"
  shows "length (bm_map bm) = (bm_size bm + 63) div 64"
proof -
  have "length (bm_map bm) = calc_size_in_words (bm_size bm)"
    using assms by (simp add: bm_wf_def size_in_words_def)
  then show ?thesis
    using calc_size_in_words_div[OF bm_wf_size_bound[OF assms]] by simp
qed

lemma bm_wf_iff:
  "bm_wf bm \<longleftrightarrow> bm_size bm + 63 < 2 ^ 64 \<and> length (bm_map bm) = (bm_size bm + 63) div 64"
proof
  assume "bm_wf bm"
  then show "bm_size bm + 63 < 2 ^ 64 \<and> length (bm_map bm) = (bm_size bm + 63) div 64"
    using bm_wf_size_bound bm_wf_length by blast
next
  assume a: "bm_size bm + 63 < 2 ^ 64 \<and> length (bm_map bm) = (bm_size bm + 63) div 64"
  then have "bm_size bm \<le> 64 * length (bm_map bm)" by simp
  with a show "bm_wf bm"
    by (simp add: bm_wf_def size_in_words_def calc_size_in_words_div BitsPerWord_def)
qed

lemma verify_range_iff: "verify_range bm b e \<longleftrightarrow> b \<le> e \<and> e \<le> bm_size bm"
  by (auto simp: verify_range_def verify_index_def)

lemma word_index_round_up_div:
  assumes "bm_wf bm" "b \<le> bm_size bm"
  shows "word_index_round_up bm b = (b + 63) div 64"
proof -
  have "b + 63 < 2 ^ 64" using bm_wf_size_bound[OF assms(1)] assms(2) by simp
  then show ?thesis
    by (simp add: word_index_round_up_def BitsPerWord_def idx_wrap_id word_index_div)
qed

lemma bit_index_mult:
  assumes "64 * w < 2 ^ 64"
  shows "bit_index w = 64 * w"
  using assms by (simp add: bit_index_def LogBitsPerWord_def push_bit_eq_mult idx_wrap_id mult.commute)

lemma set_range_size: "bm_size (set_range bm b e) = bm_size bm"
  by (simp add: set_range_def Let_def set_range_within_word_def set_range_of_words_def)

lemma clear_range_size: "bm_size (clear_range bm b e) = bm_size bm"
  by (simp add: clear_range_def Let_def clear_range_within_word_def clear_range_of_words_def)

lemma set_range_within_word_length:
  "length (bm_map (set_range_within_word bm b e)) = length (bm_map bm)"
  by (simp add: set_range_within_word_def Let_def)

lemma clear_range_within_word_length:
  "length (bm_map (clear_range_within_word bm b e)) = length (bm_map bm)"
  by (simp add: clear_range_within_word_def Let_def)

lemma range_put_length: "range_put v m b e m' \<Longrightarrow> length m' = length m"
  by (simp add: range_put_def)

lemma three_part_put:
  fixes W M :: "BitMap \<Rightarrow> nat \<Rightarrow> nat \<Rightarrow> BitMap"
  assumes within: "\<And>x b e. b \<le> e \<Longrightarrow> e \<le> 64 * (b div 64) + 64
        \<Longrightarrow> (b < e \<longrightarrow> b div 64 < length (bm_map x))
        \<Longrightarrow> range_put v (bm_map x) b e (bm_map (W x b e))"
    and mid: "\<And>x b e. range_put v (bm_map x) (64 * b) (64 * e) (bm_map (M x b e))"
    and be: "b \<le> e" and en: "e \<le> 64 * length (bm_map bm)"
    and BE: "(b + 63) div 64 < e div 64"
  shows "range_put v (bm_map bm) b e
     (bm_map (W (M (W bm b (64 * ((b + 63) div 64))) ((b + 63) div 64) (e div 64)) (64 * (e div 64)) e))"
proof -
  define n where "n = length (bm_map bm)"
  define B where "B = (b + 63) div 64"
  define E where "E = e div 64"
  define q where "q = b div 64"
  have Bb: "64 * B \<le> b + 63" "b + 63 < 64 * B + 64" unfolding B_def by (rule div64_bounds)+
  have Eb: "64 * E \<le> e" "e < 64 * E + 64" unfolding E_def by (rule div64_bounds)+
  have qb: "64 * q \<le> b" "b < 64 * q + 64" unfolding q_def by (rule div64_bounds)+
  have en': "e \<le> 64 * n" using en by (simp add: n_def)
  have BE': "B < E" using BE by (simp add: B_def E_def)
  note c = split_full_core[OF Bb Eb qb be en' BE']
  define bm1 where "bm1 = W bm b (64 * B)"
  define bm2 where "bm2 = M bm1 B E"
  define bm3 where "bm3 = W bm2 (64 * E) e"
  have p1: "range_put v (bm_map bm) b (64 * B) (bm_map bm1)"
    unfolding bm1_def using c(1,2,3) by (intro within) (simp_all add: q_def n_def)
  have l1: "length (bm_map bm1) = n" using p1 by (simp add: range_put_length n_def)
  have p2: "range_put v (bm_map bm1) (64 * B) (64 * E) (bm_map bm2)"
    unfolding bm2_def by (rule mid)
  have l2: "length (bm_map bm2) = n" using p2 l1 by (simp add: range_put_length)
  have p3: "range_put v (bm_map bm2) (64 * E) e (bm_map bm3)"
    unfolding bm3_def using Eb c(5) by (intro within) (simp_all add: l2)
  have "range_put v (bm_map bm) b e (bm_map bm3)"
    using range_put_trans[OF range_put_trans[OF p1 p2 c(1) c(4)] p3] c(1,4) Eb(1) by simp
  then show ?thesis by (simp add: bm3_def bm2_def bm1_def B_def E_def)
qed

lemma two_part_put:
  fixes W :: "BitMap \<Rightarrow> nat \<Rightarrow> nat \<Rightarrow> BitMap"
  assumes within: "\<And>x b e. b \<le> e \<Longrightarrow> e \<le> 64 * (b div 64) + 64
        \<Longrightarrow> (b < e \<longrightarrow> b div 64 < length (bm_map x))
        \<Longrightarrow> range_put v (bm_map x) b e (bm_map (W x b e))"
    and be: "b \<le> e" and en: "e \<le> 64 * length (bm_map bm)"
    and BE: "\<not> (b + 63) div 64 < e div 64"
  shows "range_put v (bm_map bm) b e
     (bm_map (W (W bm b (min (64 * ((b + 63) div 64)) e)) (min (64 * ((b + 63) div 64)) e) e))"
proof -
  define n where "n = length (bm_map bm)"
  define B where "B = (b + 63) div 64"
  define E where "E = e div 64"
  define q where "q = b div 64"
  have Bb: "64 * B \<le> b + 63" "b + 63 < 64 * B + 64" unfolding B_def by (rule div64_bounds)+
  have Eb: "64 * E \<le> e" "e < 64 * E + 64" unfolding E_def by (rule div64_bounds)+
  have qb: "64 * q \<le> b" "b < 64 * q + 64" unfolding q_def by (rule div64_bounds)+
  have en': "e \<le> 64 * n" using en by (simp add: n_def)
  have BE': "\<not> B < E" using BE by (simp add: B_def E_def)
  note c = split_partial_core[OF Bb Eb qb be en' BE']
  define m where "m = min (64 * B) e"
  define bm1 where "bm1 = W bm b m"
  define bm2 where "bm2 = W bm1 m e"
  have bm: "b \<le> m" "m \<le> e" using c(1) be by (simp_all add: m_def)
  have p1: "range_put v (bm_map bm) b m (bm_map bm1)"
    unfolding bm1_def using c(2,3) bm by (intro within) (auto simp add: q_def n_def m_def)
  have l1: "length (bm_map bm1) = n" using p1 by (simp add: range_put_length n_def)
  have m2: "m < e \<longrightarrow> m div 64 = B" by (auto simp add: m_def min_def)
  have p2: "range_put v (bm_map bm1) m e (bm_map bm2)"
    unfolding bm2_def using c(4,5) bm m2 div64_bounds[of e]
    by (intro within) (auto simp add: l1 m_def min_def)
  have "range_put v (bm_map bm) b e (bm_map bm2)"
    using range_put_trans[OF p1 p2 bm] .
  then show ?thesis by (simp add: bm2_def bm1_def m_def B_def)
qed

text \<open>What a well-formed bitmap and a valid range give the index arithmetic.\<close>

lemma valid_range_facts:
  assumes wf: "bm_wf bm" and vr: "verify_range bm b e"
  shows "b \<le> e" and "e \<le> 64 * length (bm_map bm)"
    and "word_index_round_up bm b = (b + 63) div 64"
    and "word_index e = e div 64"
    and "bit_index ((b + 63) div 64) = 64 * ((b + 63) div 64)"
    and "bit_index (e div 64) = 64 * (e div 64)"
    and "(b + 63) div 64 < 2 ^ 58"
proof -
  have be: "b \<le> e" and es: "e \<le> bm_size bm" using vr by (simp_all add: verify_range_iff)
  show "b \<le> e" by (rule be)
  have sz: "bm_size bm + 63 < 2 ^ 64" using wf by (rule bm_wf_size_bound)
  have len: "length (bm_map bm) = (bm_size bm + 63) div 64" using wf by (simp add: bm_wf_length)
  have sn: "bm_size bm \<le> 64 * length (bm_map bm)" unfolding len by simp
  show "e \<le> 64 * length (bm_map bm)" using es sn by simp
  show "word_index_round_up bm b = (b + 63) div 64"
    using wf be es by (simp add: word_index_round_up_div)
  show "word_index e = e div 64" by (simp add: word_index_div)
  have "64 * ((b + 63) div 64) \<le> bm_size bm + 63" using div64_bounds(1)[of "b + 63"] be es by linarith
  then show "bit_index ((b + 63) div 64) = 64 * ((b + 63) div 64)"
    using sz by (intro bit_index_mult) linarith
  have "64 * (e div 64) \<le> bm_size bm + 63" using div64_bounds(1)[of e] es by linarith
  then show "bit_index (e div 64) = 64 * (e div 64)" using sz by (intro bit_index_mult) linarith
  have "b + 63 < 2 ^ 64" using sz be es by linarith
  then have "(b + 63) div 64 < 2 ^ 64 div 64" by (simp add: div_less_iff_less_mult)
  then show "(b + 63) div 64 < 2 ^ 58" by simp
qed

lemma set_range_of_words_put:
  "range_put True (bm_map x) (64 * b) (64 * e) (bm_map (set_range_of_words x b e))"
  by (simp add: set_range_of_words_def fill_words_put)

lemma clear_range_of_words_put:
  "range_put False (bm_map x) (64 * b) (64 * e) (bm_map (clear_range_of_words x b e))"
  by (simp add: clear_range_of_words_def clear_range_of_words_map_def fill_words_put)

lemma set_large_range_of_words_put:
  "range_put True (bm_map x) (64 * b) (64 * e) (bm_map (set_large_range_of_words x b e))"
  by (simp add: set_large_range_of_words_def bulk_fill_eq fill_words_put)

lemma clear_large_range_of_words_put:
  "range_put False (bm_map x) (64 * b) (64 * e) (bm_map (clear_large_range_of_words x b e))"
  by (simp add: clear_large_range_of_words_def bulk_fill_eq fill_words_put)

lemma set_range_put:
  assumes wf: "bm_wf bm" and vr: "verify_range bm b e"
  shows "range_put True (bm_map bm) b e (bm_map (set_range bm b e))"
proof -
  note f = valid_range_facts[OF wf vr]
  show ?thesis
  proof (cases "(b + 63) div 64 < e div 64")
    case True
    show ?thesis
      using three_part_put[of True set_range_within_word set_range_of_words,
          OF set_range_within_word_put set_range_of_words_put f(1,2) True] True
      by (simp add: set_range_def Let_def f)
  next
    case False
    show ?thesis
      using two_part_put[of True set_range_within_word, OF set_range_within_word_put f(1,2) False] False
      by (simp add: set_range_def Let_def f)
  qed
qed

lemma clear_range_put:
  assumes wf: "bm_wf bm" and vr: "verify_range bm b e"
  shows "range_put False (bm_map bm) b e (bm_map (clear_range bm b e))"
proof -
  note f = valid_range_facts[OF wf vr]
  show ?thesis
  proof (cases "(b + 63) div 64 < e div 64")
    case True
    show ?thesis
      using three_part_put[of False clear_range_within_word clear_range_of_words,
          OF clear_range_within_word_put clear_range_of_words_put f(1,2) True] True
      by (simp add: clear_range_def Let_def f)
  next
    case False
    show ?thesis
      using two_part_put[of False clear_range_within_word, OF clear_range_within_word_put f(1,2) False] False
      by (simp add: clear_range_def Let_def f)
  qed
qed

lemma not_small_range:
  assumes "B < 2 ^ 58" "srw < 2 ^ 63" "\<not> is_small_range_of_words srw B E"
  shows "B < E"
proof -
  have "B + srw < 2 ^ 64" using assms(1,2) by simp
  then have "idx_wrap (B + srw) = B + srw" by (rule idx_wrap_id)
  then show ?thesis using assms(3) by (simp add: is_small_range_of_words_def)
qed

lemma set_large_range_put:
  assumes wf: "bm_wf bm" and vr: "verify_range bm b e" and srw: "srw < 2 ^ 63"
  shows "range_put True (bm_map bm) b e (bm_map (set_large_range srw bm b e))"
proof -
  note f = valid_range_facts[OF wf vr]
  show ?thesis
  proof (cases "is_small_range_of_words srw ((b + 63) div 64) (e div 64)")
    case True
    then show ?thesis
      using set_range_put[OF wf vr] by (simp add: set_large_range_def Let_def f)
  next
    case False
    have BE: "(b + 63) div 64 < e div 64" using not_small_range[OF f(7) srw False] .
    show ?thesis
      using three_part_put[of True set_range_within_word set_large_range_of_words,
          OF set_range_within_word_put set_large_range_of_words_put f(1,2) BE] False
      by (simp add: set_large_range_def Let_def f)
  qed
qed

lemma clear_large_range_put:
  assumes wf: "bm_wf bm" and vr: "verify_range bm b e" and srw: "srw < 2 ^ 63"
  shows "range_put False (bm_map bm) b e (bm_map (clear_large_range srw bm b e))"
proof -
  note f = valid_range_facts[OF wf vr]
  show ?thesis
  proof (cases "is_small_range_of_words srw ((b + 63) div 64) (e div 64)")
    case True
    then show ?thesis
      using clear_range_put[OF wf vr] by (simp add: clear_large_range_def Let_def f)
  next
    case False
    have BE: "(b + 63) div 64 < e div 64" using not_small_range[OF f(7) srw False] .
    show ?thesis
      using three_part_put[of False clear_range_within_word clear_large_range_of_words,
          OF clear_range_within_word_put clear_large_range_of_words_put f(1,2) BE] False
      by (simp add: clear_large_range_def Let_def f)
  qed
qed

lemma BitMap_eqI:
  fixes x y :: BitMap
  shows "bm_map x = bm_map y \<Longrightarrow> bm_size x = bm_size y \<Longrightarrow> x = y"
  by (rule BitMap.equality) simp_all

lemma set_large_range_size: "bm_size (set_large_range srw bm b e) = bm_size bm"
  by (simp add: set_large_range_def Let_def set_range_size set_range_within_word_def
      set_large_range_of_words_def)

lemma clear_large_range_size: "bm_size (clear_large_range srw bm b e) = bm_size bm"
  by (simp add: clear_large_range_def Let_def clear_range_size clear_range_within_word_def
      clear_large_range_of_words_def)

lemma bm_wf_same_shape:
  "bm_wf x \<Longrightarrow> bm_size y = bm_size x \<Longrightarrow> length (bm_map y) = length (bm_map x) \<Longrightarrow> bm_wf y"
  by (simp add: bm_wf_iff)

lemma set_range_wf:
  assumes "bm_wf bm" "verify_range bm b e"
  shows "bm_wf (set_range bm b e)"
  using assms(1) set_range_size range_put_length[OF set_range_put[OF assms]]
  by (rule bm_wf_same_shape)

lemma clear_range_wf:
  assumes "bm_wf bm" "verify_range bm b e"
  shows "bm_wf (clear_range bm b e)"
  using assms(1) clear_range_size range_put_length[OF clear_range_put[OF assms]]
  by (rule bm_wf_same_shape)

lemma range_put_at:
  assumes "range_put v (bm_map x) b e (bm_map y)" "i < 64 * length (bm_map x)"
  shows "bm_at y i = (if b \<le> i \<and> i < e then v else bm_at x i)"
proof -
  have j: "i div 64 < length (bm_map x)" using assms(2) by (simp add: div_less_iff_less_mult)
  have k: "i mod 64 < 64" by simp
  have "64 * (i div 64) + i mod 64 = i" by simp
  then show ?thesis
    using assms(1) j k unfolding range_put_def bm_at_bit by metis
qed

lemma bm_four_words_wf: "bm_wf bm_four_words"
  by (simp add: bm_four_words_def bm_wf_def size_in_words_def calc_size_in_words_def
      word_index_def idx_wrap_def BitsPerWord_def LogBitsPerWord_def drop_bit_eq_div)

text \<open>
  Claim C5. On a well-formed bitmap and a valid range, \<^verbatim>\<open>set_large_range\<close> leaves the
  bitmap in exactly the state \<^verbatim>\<open>set_range\<close> does, and \<^verbatim>\<open>clear_large_range\<close> in exactly
  the state \<^verbatim>\<open>clear_range\<close> does, whatever the small-range threshold \<open>srw\<close> is (as long
  as adding it to a word index does not overflow an \<^verbatim>\<open>idx_t\<close>).
\<close>

theorem large_range_C5:
  assumes "bm_wf bm" and "verify_range bm beg end" and "srw < 2 ^ 63"
  shows "set_large_range srw bm beg end = set_range bm beg end
       \<and> clear_large_range srw bm beg end = clear_range bm beg end"
proof
  show "set_large_range srw bm beg end = set_range bm beg end"
    using range_put_unique[OF set_large_range_put[OF assms] set_range_put[OF assms(1,2)]]
    by (intro BitMap_eqI) (simp_all add: set_large_range_size set_range_size)
  show "clear_large_range srw bm beg end = clear_range bm beg end"
    using range_put_unique[OF clear_large_range_put[OF assms] clear_range_put[OF assms(1,2)]]
    by (intro BitMap_eqI) (simp_all add: clear_large_range_size clear_range_size)
qed

text \<open>An instance that takes the bulk path: four words, threshold 1, range \<open>[3, 250)\<close>.\<close>

theorem large_range_C5_witness:
  "bm_wf bm_four_words \<and> verify_range bm_four_words 3 250 \<and> (1::nat) < 2 ^ 63
   \<and> \<not> is_small_range_of_words 1 (word_index_round_up bm_four_words 3) (word_index 250)
   \<and> set_large_range 1 bm_four_words 3 250 = set_range bm_four_words 3 250
   \<and> clear_large_range 1 bm_four_words 3 250 = clear_range bm_four_words 3 250"
proof -
  have wf: "bm_wf bm_four_words" by (rule bm_four_words_wf)
  have vr: "verify_range bm_four_words 3 250"
    by (simp add: verify_range_def bm_four_words_def verify_index_def)
  have srw: "(1::nat) < 2 ^ 63" by simp
  have large: "\<not> is_small_range_of_words 1 (word_index_round_up bm_four_words 3) (word_index 250)"
    by (simp add: is_small_range_of_words_def word_index_round_up_def word_index_def idx_wrap_def
        BitsPerWord_def LogBitsPerWord_def drop_bit_eq_div)
  show ?thesis
    using large_range_C5[OF wf vr srw] wf vr large by simp
qed

lemma range_put_bit:
  "range_put v m b e m' \<Longrightarrow> j < length m \<Longrightarrow> k < 64 \<Longrightarrow>
   bit (m' ! j) k = (if b \<le> 64 * j + k \<and> 64 * j + k < e then v else bit (m ! j) k)"
  by (simp add: range_put_def)

lemma range_put_overwrite:
  assumes p1: "range_put v m b e m1" and p2: "range_put w m1 b e m2"
  shows "range_put w m b e m2"
  unfolding range_put_def
proof (intro conjI allI impI)
  show "length m2 = length m" using p1 p2 by (simp add: range_put_def)
next
  fix j k :: nat assume j: "j < length m" and k: "k < 64"
  have j1: "j < length m1" using p1 j by (simp add: range_put_def)
  show "bit (m2 ! j) k = (if b \<le> 64 * j + k \<and> 64 * j + k < e then w else bit (m ! j) k)"
    unfolding range_put_bit[OF p2 j1 k] range_put_bit[OF p1 j k] by simp
qed

lemma set_then_clear_put:
  assumes wf: "bm_wf bm" and vr: "verify_range bm b e"
  shows "range_put False (bm_map bm) b e (bm_map (clear_range (set_range bm b e) b e))"
proof -
  have wf1: "bm_wf (set_range bm b e)" using wf vr by (rule set_range_wf)
  have vr1: "verify_range (set_range bm b e) b e"
    using vr by (simp add: verify_range_iff set_range_size)
  have p1: "range_put True (bm_map bm) b e (bm_map (set_range bm b e))"
    using wf vr by (rule set_range_put)
  have p2: "range_put False (bm_map (set_range bm b e)) b e (bm_map (clear_range (set_range bm b e) b e))"
    using wf1 vr1 by (rule clear_range_put)
  show ?thesis
    using p1 p2 by (rule range_put_overwrite)
qed

lemma range_put_False_id:
  assumes e: "e \<le> 64 * length m"
  shows "range_put False m b e m \<longleftrightarrow> (\<forall>i. b \<le> i \<and> i < e \<longrightarrow> \<not> bit (m ! (i div 64)) (i mod 64))"
proof
  assume rp: "range_put False m b e m"
  show "\<forall>i. b \<le> i \<and> i < e \<longrightarrow> \<not> bit (m ! (i div 64)) (i mod 64)"
  proof (intro allI impI)
    fix i assume i: "b \<le> i \<and> i < e"
    then have j: "i div 64 < length m" using e by (simp add: div_less_iff_less_mult)
    have k: "i mod 64 < 64" by simp
    have eq: "64 * (i div 64) + i mod 64 = i" by simp
    show "\<not> bit (m ! (i div 64)) (i mod 64)"
      using range_put_bit[OF rp j k] i unfolding eq by simp
  qed
next
  assume a: "\<forall>i. b \<le> i \<and> i < e \<longrightarrow> \<not> bit (m ! (i div 64)) (i mod 64)"
  show "range_put False m b e m"
    unfolding range_put_def
  proof (intro conjI allI impI)
    show "length m = length m" by simp
  next
    fix j k :: nat assume j: "j < length m" and k: "k < 64"
    have "(64 * j + k) div 64 = j" "(64 * j + k) mod 64 = k" using k by simp_all
    then show "bit (m ! j) k = (if b \<le> 64 * j + k \<and> 64 * j + k < e then False else bit (m ! j) k)"
      using a[rule_format, of "64 * j + k"] by auto
  qed
qed

text \<open>
  Claim C2, as amended. \<^verbatim>\<open>set_range(beg, end)\<close> followed by \<^verbatim>\<open>clear_range(beg, end)\<close>
  leaves the bitmap in the state \<^verbatim>\<open>clear_range(beg, end)\<close> alone gives: the bits outside
  \<open>[beg, end)\<close> keep their values and the bits inside are clear. The state before the
  \<^verbatim>\<open>set_range\<close> call is restored exactly when no bit of \<open>[beg, end)\<close> was set in it.
\<close>

theorem set_then_clear_range_C2:
  assumes "bm_wf bm" and "verify_range bm beg end"
  shows "clear_range (set_range bm beg end) beg end = clear_range bm beg end
       \<and> (clear_range (set_range bm beg end) beg end = bm
            \<longleftrightarrow> (\<forall>i. beg \<le> i \<and> i < end \<longrightarrow> \<not> bm_at bm i))"
proof
  define r where "r = clear_range (set_range bm beg end) beg end"
  have sz: "bm_size r = bm_size bm" by (simp add: r_def clear_range_size set_range_size)
  have p: "range_put False (bm_map bm) beg end (bm_map r)"
    unfolding r_def using assms by (rule set_then_clear_put)
  have "r = clear_range bm beg end"
    using range_put_unique[OF p clear_range_put[OF assms]] sz
    by (intro BitMap_eqI) (simp_all add: clear_range_size)
  then show "clear_range (set_range bm beg end) beg end = clear_range bm beg end"
    by (simp add: r_def)
  have en: "end \<le> 64 * length (bm_map bm)" using valid_range_facts(2)[OF assms] .
  have 1: "r = bm \<longleftrightarrow> bm_map r = bm_map bm"
  proof
    assume "r = bm" then show "bm_map r = bm_map bm" by simp
  next
    assume "bm_map r = bm_map bm" then show "r = bm" using sz by (rule BitMap_eqI)
  qed
  have 2: "bm_map r = bm_map bm \<longleftrightarrow> range_put False (bm_map bm) beg end (bm_map bm)"
  proof
    assume "bm_map r = bm_map bm"
    with p show "range_put False (bm_map bm) beg end (bm_map bm)" by simp
  next
    assume "range_put False (bm_map bm) beg end (bm_map bm)"
    with p show "bm_map r = bm_map bm" by (rule range_put_unique)
  qed
  have 3: "range_put False (bm_map bm) beg end (bm_map bm)
            \<longleftrightarrow> (\<forall>i. beg \<le> i \<and> i < end \<longrightarrow> \<not> bm_at bm i)"
    unfolding range_put_False_id[OF en] bm_at_bit ..
  show "clear_range (set_range bm beg end) beg end = bm
      \<longleftrightarrow> (\<forall>i. beg \<le> i \<and> i < end \<longrightarrow> \<not> bm_at bm i)"
    using 1 2 3 unfolding r_def by blast
qed

lemma bm_one_word_wf: "bm_wf bm_one_word"
  by (simp add: bm_one_word_def bm_wf_def size_in_words_def calc_size_in_words_def
      word_index_def idx_wrap_def BitsPerWord_def LogBitsPerWord_def drop_bit_eq_div)

text \<open>
  The claim as the specification states it, for every starting bit pattern, fails on a
  bitmap whose bit 0 is set: after \<^verbatim>\<open>set_range(0, 1)\<close> and \<^verbatim>\<open>clear_range(0, 1)\<close> bit 0
  is clear.
\<close>

theorem set_then_clear_range_C2_counterexample:
  "bm_wf bm_one_word \<and> verify_range bm_one_word 0 1
   \<and> clear_range (set_range bm_one_word 0 1) 0 1 \<noteq> bm_one_word"
  by (simp add: bm_one_word_def bm_wf_def size_in_words_def calc_size_in_words_def
      word_index_def idx_wrap_def BitsPerWord_def LogBitsPerWord_def drop_bit_eq_div
      verify_range_def verify_index_def clear_range_def set_range_def Let_def
      word_index_round_up_def bit_index_def set_range_within_word_def clear_range_within_word_def
      inverted_bit_mask_for_range_def bit_mask_def bit_in_word_def)

theorem set_then_clear_range_C2_witness:
  "bm_wf bm_four_words \<and> verify_range bm_four_words 3 130
   \<and> clear_range (set_range bm_four_words 3 130) 3 130 = clear_range bm_four_words 3 130
   \<and> clear_range (set_range bm_four_words 3 130) 3 130 \<noteq> bm_four_words
   \<and> bm_at bm_four_words 128"
proof -
  have wf: "bm_wf bm_four_words" by (rule bm_four_words_wf)
  have vr: "verify_range bm_four_words 3 130"
    by (simp add: verify_range_def bm_four_words_def verify_index_def)
  have at: "bm_at bm_four_words 128"
    by (simp add: bm_at_def bm_four_words_def word_index_def LogBitsPerWord_def drop_bit_eq_div
        bit_mask_def bit_in_word_def BitsPerWord_def)
  show ?thesis
    using set_then_clear_range_C2[OF wf vr] wf vr at by auto
qed

section \<open>Population count\<close>

lemma finite_bits: "finite {k. bit (w :: bm_word_t) k}"
proof -
  have "{k. bit w k} \<subseteq> {..<64}" using bit_imp_le_length[of w] by auto
  then show ?thesis by (rule finite_subset) simp
qed

lemma pop_0: "pop 0 = 0" by (simp add: pop_def)

lemma pop_drop_bit_1: "pop (drop_bit 1 w) = pop w - (if bit w 0 then 1 else 0)"
proof -
  have eq: "{k. bit w k} - {0} = Suc ` {k. bit (drop_bit 1 w) k}"
  proof (rule set_eqI)
    fix k show "k \<in> {k. bit w k} - {0} \<longleftrightarrow> k \<in> Suc ` {k. bit (drop_bit 1 w) k}"
      by (cases k) (auto simp add: bit_drop_bit_eq image_iff)
  qed
  have "card ({k. bit w k} - {0}) = pop (drop_bit 1 w)"
    unfolding eq pop_def by (rule card_image) simp
  moreover have "card ({k. bit w k} - {0}) = pop w - (if bit w 0 then 1 else 0)"
    using finite_bits[of w] by (auto simp add: pop_def)
  ultimately show ?thesis by simp
qed

lemma low_bit_clear: "(w :: bm_word_t) AND 1 = 0 \<longleftrightarrow> \<not> bit w 0"
  by (simp add: and_one_eq bit_0 mod_2_eq_odd)

lemma unat_drop_bit_1_less:
  "(w :: bm_word_t) \<noteq> 0 \<Longrightarrow> unat (drop_bit 1 w) < unat w"
proof -
  assume "w \<noteq> 0"
  then have "unat w \<noteq> 0" by (simp add: unat_eq_0)
  moreover have "unat (drop_bit 1 w) = unat w div 2"
    by (simp add: drop_bit_eq_div unat_div)
  ultimately show ?thesis by simp
qed

lemma drop_bit_1_nonzero:
  assumes "(w :: bm_word_t) \<noteq> 0" "\<not> bit w 0"
  shows "drop_bit 1 w \<noteq> 0"
proof
  assume z: "drop_bit 1 w = 0"
  have "w = 0"
  proof (rule bit_word_eqI)
    fix k assume "k < LENGTH(64)"
    show "bit w k = bit (0 :: bm_word_t) k"
    proof (cases k)
      case 0 then show ?thesis using assms(2) by simp
    next
      case (Suc k')
      have "bit (drop_bit 1 w) k' = bit w (Suc k')" by (simp add: bit_drop_bit_eq)
      then show ?thesis using z Suc by simp
    qed
  qed
  with assms(1) show False by simp
qed

lemma skip_clear_bits_returns:
  "w \<noteq> 0 \<Longrightarrow> \<exists>w'. skip_clear_bits w = Some w' \<and> bit w' 0 \<and> pop w' = pop w \<and> unat w' \<le> unat w"
proof (induction "unat w" arbitrary: w rule: less_induct)
  case less
  show ?case
  proof (cases "bit w 0")
    case True
    then show ?thesis by (subst skip_clear_bits.simps) (simp add: low_bit_clear)
  next
    case False
    have nz: "drop_bit 1 w \<noteq> 0" using less.prems False by (rule drop_bit_1_nonzero)
    have lt: "unat (drop_bit 1 w) < unat w" using less.prems by (rule unat_drop_bit_1_less)
    obtain w' where w': "skip_clear_bits (drop_bit 1 w) = Some w'" "bit w' 0"
      "pop w' = pop (drop_bit 1 w)" "unat w' \<le> unat (drop_bit 1 w)"
      using less.hyps[OF lt nz] by blast
    have "skip_clear_bits w = Some w'"
      using False w'(1) by (subst skip_clear_bits.simps) (simp add: low_bit_clear)
    moreover have "pop w' = pop w" using w'(3) False unfolding pop_drop_bit_1 by simp
    moreover have "unat w' \<le> unat w" using w'(4) lt by simp
    ultimately show ?thesis using w'(2) by blast
  qed
qed

lemma num_set_bits_loop_returns:
  "num_set_bits_loop w bits = Some (bits + pop w)"
proof (induction "unat w" arbitrary: w bits rule: less_induct)
  case less
  show ?case
  proof (cases "w = 0")
    case True
    then show ?thesis by (subst num_set_bits_loop.simps) (simp add: pop_0)
  next
    case False
    obtain w' where w': "skip_clear_bits w = Some w'" "bit w' 0" "pop w' = pop w" "unat w' \<le> unat w"
      using skip_clear_bits_returns[OF False] by blast
    have nz: "w' \<noteq> 0" using w'(2) by auto
    have lt: "unat (drop_bit 1 w') < unat w" using unat_drop_bit_1_less[OF nz] w'(4) by simp
    have pos: "0 < pop w'" using w'(2) finite_bits[of w'] by (auto simp add: pop_def card_gt_0_iff)
    have "num_set_bits_loop w bits = num_set_bits_loop (drop_bit 1 w') (bits + 1)"
      using False w'(1) by (subst num_set_bits_loop.simps) simp
    also have "\<dots> = Some (bits + 1 + pop (drop_bit 1 w'))" using less.hyps[OF lt] .
    also have "\<dots> = Some (bits + pop w)" using w'(2,3) pos unfolding pop_drop_bit_1 by simp
    finally show ?thesis .
  qed
qed

lemma num_set_bits_returns: "num_set_bits w = Some (pop w)"
  by (simp add: num_set_bits_def num_set_bits_loop_returns)

lemma those_map_Some: "those (map (\<lambda>i. Some (g i)) xs) = Some (map g xs)"
  by (induction xs) simp_all

lemma init_pop_count_table_returns: "init_pop_count_table = Some pop_table"
  by (simp add: init_pop_count_table_def num_set_bits_returns those_map_Some pop_table_def)

lemma pop_le_64: "pop w \<le> 64"
proof -
  have "{k. bit w k} \<subseteq> {..<64}" using bit_imp_le_length[of w] by auto
  then have "card {k. bit w k} \<le> card {..<64::nat}" by (intro card_mono) simp_all
  then show ?thesis by (simp add: pop_def)
qed

lemma pop_split_byte: "pop w = pop (w AND 255) + pop (drop_bit 8 w)"
proof -
  have m: "(255 :: bm_word_t) = mask 8" by (simp add: mask_eq_exp_minus_1)
  have lo: "{k. bit (w AND 255) k} = {k. bit w k \<and> k < 8}"
    unfolding m by (auto simp add: bit_simps)
  have hi: "(\<lambda>k. k + 8) ` {k. bit (drop_bit 8 w) k} = {k. bit w k \<and> 8 \<le> k}"
  proof (rule set_eqI)
    fix k
    show "k \<in> (\<lambda>k. k + 8) ` {k. bit (drop_bit 8 w) k} \<longleftrightarrow> k \<in> {k. bit w k \<and> 8 \<le> k}"
    proof
      assume "k \<in> (\<lambda>k. k + 8) ` {k. bit (drop_bit 8 w) k}"
      then obtain k' where "k = k' + 8" "bit (drop_bit 8 w) k'" by auto
      then show "k \<in> {k. bit w k \<and> 8 \<le> k}" by (simp add: bit_drop_bit_eq add.commute)
    next
      assume "k \<in> {k. bit w k \<and> 8 \<le> k}"
      then have "bit w k" "8 \<le> k" by auto
      then have "bit (drop_bit 8 w) (k - 8)" "k = (k - 8) + 8" by (simp_all add: bit_drop_bit_eq)
      then show "k \<in> (\<lambda>k. k + 8) ` {k. bit (drop_bit 8 w) k}" by blast
    qed
  qed
  have "card ((\<lambda>k. k + 8) ` {k. bit (drop_bit 8 w) k}) = pop (drop_bit 8 w)"
    unfolding pop_def by (rule card_image) simp
  then have hi': "pop (drop_bit 8 w) = card {k. bit w k \<and> 8 \<le> k}" unfolding hi by simp
  have un: "{k. bit w k} = {k. bit w k \<and> k < 8} \<union> {k. bit w k \<and> 8 \<le> k}" by auto
  have fin: "finite {k. bit w k \<and> k < 8}" "finite {k. bit w k \<and> 8 \<le> k}"
    using finite_bits[of w] by simp_all
  have "card {k. bit w k} = card {k. bit w k \<and> k < 8} + card {k. bit w k \<and> 8 \<le> k}"
    by (subst un, rule card_Un_disjoint) (use fin in auto)
  then show ?thesis unfolding pop_def lo hi'[unfolded pop_def] .
qed

lemma table_lookup: "num_set_bits_from_table pop_table (ucast (w AND (255 :: bm_word_t))) = pop (w AND 255)"
proof -
  have m: "(255 :: bm_word_t) = mask 8" by (simp add: mask_eq_exp_minus_1)
  have t: "w AND mask 8 = take_bit 8 w" by (simp add: take_bit_eq_mask)
  have ut: "unat (take_bit 8 w) = take_bit 8 (unat w)" by (simp add: unsigned_take_bit_eq)
  have u: "unat (ucast (w AND 255) :: 8 word) = unat (w AND 255)"
    unfolding m t by (simp add: unsigned_ucast_eq ut)
  have "take_bit 8 (unat w) < 2 ^ 8" by (rule take_bit_nat_less_exp)
  then have lt: "unat (w AND 255) < 256"
    unfolding m t ut by simp
  show ?thesis
    unfolding num_set_bits_from_table_def u pop_table_def using lt by simp
qed

lemma count_word_bytes_pop:
  "j \<le> 8 \<Longrightarrow> drop_bit (8 * (8 - j)) w = 0 \<Longrightarrow> s + pop w < 2 ^ 64
   \<Longrightarrow> count_word_bytes pop_table w j s = s + pop w"
proof (induction pop_table w j s rule: count_word_bytes.induct)
  case (1 w j s)
  show ?case
  proof (cases "j < 8")
    case True
    have sp: "pop w = pop (w AND 255) + pop (drop_bit 8 w)" by (rule pop_split_byte)
    have d: "drop_bit (8 * (8 - Suc j)) (drop_bit 8 w) = 0"
    proof -
      have "8 * (8 - Suc j) + 8 = 8 * (8 - j)" using True by simp
      then show ?thesis using "1.prems"(2) by (simp add: drop_bit_drop_bit add.commute)
    qed
    have nw: "idx_wrap (s + pop (w AND 255)) = s + pop (w AND 255)"
      using "1.prems"(3) sp by (intro idx_wrap_id) simp
    have "count_word_bytes pop_table w j s =
          count_word_bytes pop_table (drop_bit 8 w) (Suc j) (s + pop (w AND 255))"
      using True by (subst count_word_bytes.simps) (simp add: table_lookup nw)
    also have "\<dots> = s + pop (w AND 255) + pop (drop_bit 8 w)"
    proof -
      have "Suc j \<le> 8" using True by simp
      moreover have "s + pop (w AND 255) + pop (drop_bit 8 w) < 2 ^ 64"
        using "1.prems"(3) sp by simp
      ultimately show ?thesis
        using "1.hyps"[OF True, unfolded table_lookup nw] d by blast
    qed
    finally show ?thesis using sp by simp
  next
    case False
    then have "j = 8" using "1.prems"(1) by simp
    then have "w = 0" using "1.prems"(2) by simp
    then show ?thesis using False by (subst count_word_bytes.simps) (simp add: pop_0)
  qed
qed

lemma count_word_bytes_word:
  assumes "s + 64 < 2 ^ 64"
  shows "count_word_bytes pop_table w 0 s = s + pop w"
proof -
  have "drop_bit (8 * (8 - 0)) w = 0" by (simp add: drop_bit_eq_zero_iff_not_bit_last) 
  moreover have "s + pop w < 2 ^ 64" using assms pop_le_64[of w] by linarith
  ultimately show ?thesis by (intro count_word_bytes_pop) simp_all
qed

lemma count_words_sum:
  "s + 64 * (n - i) < 2 ^ 64 \<Longrightarrow>
   count_words pop_table m i n s = s + (\<Sum>j = i..<n. pop (m ! j))"
proof (induction pop_table m i n s rule: count_words.induct)
  case (1 m i n s)
  show ?case
  proof (cases "i < n")
    case True
    have b: "s + 64 < 2 ^ 64" using "1.prems" True by linarith
    have cw: "count_word_bytes pop_table (m ! i) 0 s = s + pop (m ! i)"
      using b by (rule count_word_bytes_word)
    have "s + pop (m ! i) + 64 * (n - Suc i) < 2 ^ 64"
      using "1.prems" True pop_le_64[of "m ! i"] by linarith
    then have ih: "count_words pop_table m (Suc i) n (s + pop (m ! i))
        = s + pop (m ! i) + (\<Sum>j = Suc i..<n. pop (m ! j))"
      using "1.hyps"[OF True, unfolded cw] by blast
    have "count_words pop_table m i n s = count_words pop_table m (Suc i) n (s + pop (m ! i))"
      using True by (subst count_words.simps) (simp add: cw)
    then show ?thesis
      using ih True by (simp add: sum.atLeast_Suc_lessThan)
  next
    case False
    then show ?thesis by (subst count_words.simps) simp
  qed
qed

lemma set_bits_UN:
  "set_bits m = (\<Union>j\<in>{..<length m}. (\<lambda>k. 64 * j + k) ` {k. bit (m ! j) k})"
proof (rule set_eqI)
  fix i
  show "i \<in> set_bits m \<longleftrightarrow> i \<in> (\<Union>j\<in>{..<length m}. (\<lambda>k. 64 * j + k) ` {k. bit (m ! j) k})"
  proof
    assume "i \<in> set_bits m"
    then have lt: "i < 64 * length m" and b: "bit (m ! (i div 64)) (i mod 64)"
      by (simp_all add: set_bits_def)
    have "i div 64 < length m" using lt by (simp add: div_less_iff_less_mult)
    moreover have "i = 64 * (i div 64) + i mod 64" by simp
    ultimately show "i \<in> (\<Union>j\<in>{..<length m}. (\<lambda>k. 64 * j + k) ` {k. bit (m ! j) k})"
      using b by blast
  next
    assume "i \<in> (\<Union>j\<in>{..<length m}. (\<lambda>k. 64 * j + k) ` {k. bit (m ! j) k})"
    then obtain j k where j: "j < length m" and k: "bit (m ! j) k" and i: "i = 64 * j + k"
      by auto
    have k64: "k < 64" using bit_imp_le_length[OF k] by simp
    have "i div 64 = j" "i mod 64 = k" using k64 i by simp_all
    moreover have "i < 64 * length m" using i k64 j by linarith
    ultimately show "i \<in> set_bits m" using k by (simp add: set_bits_def)
  qed
qed

lemma finite_set_bits: "finite (set_bits m)"
  by (simp add: set_bits_def)

lemma card_set_bits: "card (set_bits m) = (\<Sum>j<length m. pop (m ! j))"
proof -
  let ?A = "\<lambda>j. (\<lambda>k. 64 * j + k) ` {k. bit (m ! j) k}"
  have disj: "\<forall>i\<in>{..<length m}. \<forall>j\<in>{..<length m}. i \<noteq> j \<longrightarrow> ?A i \<inter> ?A j = {}"
  proof (intro ballI impI)
    fix i j :: nat assume ij: "i \<noteq> j"
    show "?A i \<inter> ?A j = {}"
    proof (rule ccontr)
      assume "?A i \<inter> ?A j \<noteq> {}"
      then obtain x where "x \<in> ?A i" "x \<in> ?A j" by blast
      then obtain k k' where k: "bit (m ! i) k" "x = 64 * i + k" and k': "bit (m ! j) k'" "x = 64 * j + k'"
        by auto
      have "k < 64" "k' < 64" using bit_imp_le_length[OF k(1)] bit_imp_le_length[OF k'(1)] by simp_all
      then have "x div 64 = i" "x div 64 = j" using k(2) k'(2) by simp_all
      with ij show False by simp
    qed
  qed
  have c: "\<And>j. card (?A j) = pop (m ! j)"
    unfolding pop_def by (rule card_image) (simp add: inj_on_def)
  have "card (set_bits m) = (\<Sum>j\<in>{..<length m}. card (?A j))"
    unfolding set_bits_UN
    by (rule card_UN_disjoint) (use disj finite_bits in auto)
  then show ?thesis by (simp add: c)
qed

lemma count_one_bits_card:
  assumes "bm_wf bm"
  shows "count_one_bits bm = Some (card {i. i < 64 * length (bm_map bm) \<and> bm_at bm i})"
proof -
  have len: "size_in_words bm = length (bm_map bm)" using assms by (simp add: bm_wf_def)
  have "64 * length (bm_map bm) \<le> bm_size bm + 63"
    unfolding bm_wf_length[OF assms] by simp
  then have b: "0 + 64 * (length (bm_map bm) - 0) < 2 ^ 64"
    using bm_wf_size_bound[OF assms] by simp
  have "count_words pop_table (bm_map bm) 0 (length (bm_map bm)) 0
      = (\<Sum>j = 0..<length (bm_map bm). pop (bm_map bm ! j))"
    using count_words_sum[OF b] by simp
  also have "\<dots> = card (set_bits (bm_map bm))"
    by (simp add: card_set_bits atLeast0LessThan)
  finally show ?thesis
    by (simp add: count_one_bits_def init_pop_count_table_returns len set_bits_def bm_at_bit)
qed

text \<open>
  Claim C7. On a well-formed bitmap and a valid range, \<^verbatim>\<open>count_one_bits\<close> returns before
  and after \<^verbatim>\<open>set_range(beg, end)\<close>, and the count after is the count before plus
  \<open>end - beg\<close> minus the number of bits of \<open>[beg, end)\<close> that were already set.
\<close>

theorem count_after_set_range_C7:
  assumes "bm_wf bm" and "verify_range bm beg end"
  shows "\<exists>c0 c1. count_one_bits bm = Some c0
           \<and> count_one_bits (set_range bm beg end) = Some c1
           \<and> c1 = c0 + ((end - beg) - card {i. beg \<le> i \<and> i < end \<and> bm_at bm i})"
proof -
  define n where "n = length (bm_map bm)"
  define S where "S = {i. i < 64 * n \<and> bm_at bm i}"
  define S' where "S' = {i. i < 64 * n \<and> bm_at (set_range bm beg end) i}"
  define R where "R = {beg..<end}"
  have wf': "bm_wf (set_range bm beg end)" using assms by (rule set_range_wf)
  have p: "range_put True (bm_map bm) beg end (bm_map (set_range bm beg end))"
    using assms by (rule set_range_put)
  have len: "length (bm_map (set_range bm beg end)) = n"
    using range_put_length[OF p] by (simp add: n_def)
  have en: "end \<le> 64 * n" using valid_range_facts(2)[OF assms] by (simp add: n_def)
  have c0: "count_one_bits bm = Some (card S)"
    using count_one_bits_card[OF assms(1)] by (simp add: S_def n_def)
  have c1: "count_one_bits (set_range bm beg end) = Some (card S')"
    using count_one_bits_card[OF wf'] by (simp add: S'_def len)
  have at: "\<And>i. i < 64 * n \<Longrightarrow> bm_at (set_range bm beg end) i = (beg \<le> i \<and> i < end \<or> bm_at bm i)"
    using range_put_at[OF p] by (auto simp add: n_def)
  have S'eq: "S' = S \<union> R"
    unfolding S'_def S_def R_def using at en by auto
  have SR: "S \<inter> R = {i. beg \<le> i \<and> i < end \<and> bm_at bm i}"
    unfolding S_def R_def using en by auto
  have fin: "finite S" "finite R" by (simp_all add: S_def R_def)
  have "card (S \<union> R) + card (S \<inter> R) = card S + card R"
    using fin by (rule card_Un_Int[symmetric])
  moreover have "card R = end - beg" by (simp add: R_def)
  moreover have "card (S \<inter> R) \<le> card R" using fin by (intro card_mono) simp_all
  ultimately have "card S' = card S + ((end - beg) - card (S \<inter> R))"
    unfolding S'eq by linarith
  then show ?thesis using c0 c1 unfolding SR by blast
qed

theorem count_after_set_range_C7_witness:
  "bm_wf bm_four_words \<and> verify_range bm_four_words 3 130
   \<and> (\<exists>c0 c1. count_one_bits bm_four_words = Some c0
           \<and> count_one_bits (set_range bm_four_words 3 130) = Some c1
           \<and> c1 = c0 + ((130 - 3) - card {i. 3 \<le> i \<and> i < 130 \<and> bm_at bm_four_words i}))"
proof -
  have wf: "bm_wf bm_four_words" by (rule bm_four_words_wf)
  have vr: "verify_range bm_four_words 3 130"
    by (simp add: verify_range_def bm_four_words_def verify_index_def)
  show ?thesis
    using count_after_set_range_C7[OF wf vr] wf vr by blast
qed

section \<open>Queries, set operations and the tail word\<close>

lemma early_return_iff:
  "early_return c d x i l \<longleftrightarrow> (\<exists>j. i \<le> j \<and> j < l \<and> c (d ! j) (x ! j))"
proof (induction c d x i l rule: early_return.induct)
  case (1 c d x i l)
  show ?case
  proof (cases "i < l")
    case True
    note il = True
    show ?thesis
    proof (cases "c (d ! i) (x ! i)")
      case True
      then show ?thesis using il by (subst early_return.simps) auto
    next
      case False
      have "early_return c d x i l = early_return c d x (Suc i) l"
        using il False by (subst early_return.simps) simp
      also have "\<dots> \<longleftrightarrow> (\<exists>j. Suc i \<le> j \<and> j < l \<and> c (d ! j) (x ! j))"
        using "1.IH"[OF il False] .
      also have "\<dots> \<longleftrightarrow> (\<exists>j. i \<le> j \<and> j < l \<and> c (d ! j) (x ! j))"
        using False by (metis Suc_leD Suc_leI le_neq_implies_less)
      finally show ?thesis .
    qed
  next
    case False
    then show ?thesis by (subst early_return.simps) auto
  qed
qed

lemma tail_mask_mask: "tail_mask r = mask r"
  by (simp add: tail_mask_def mask_eq_exp_minus_1 push_bit_eq_mult)

lemma word_nonzero_bit: "(w :: bm_word_t) \<noteq> 0 \<longleftrightarrow> (\<exists>k<64. bit w k)"
proof
  assume "w \<noteq> 0"
  then obtain k where "bit w k" by (auto simp add: bit_eq_iff)
  then show "\<exists>k<64. bit w k" using bit_imp_le_length[of w k] by auto
next
  assume "\<exists>k<64. bit w k" then show "w \<noteq> 0" by auto
qed

lemma tail_of_map_nonzero:
  "r < 64 \<Longrightarrow> tail_of_map w r \<noteq> 0 \<longleftrightarrow> (\<exists>k<r. bit w k)"
  unfolding tail_of_map_def tail_mask_mask word_nonzero_bit
  by (auto simp add: bit_simps intro: less_trans)

lemma merge_tail_of_map_bit:
  "k < 64 \<Longrightarrow> bit (merge_tail_of_map new old r) k = (if k < r then bit new k else bit old k)"
  by (auto simp add: merge_tail_of_map_def Let_def tail_mask_mask bit_simps)

text \<open>The positions below \<open>size\<close> are those of the whole words and those of the tail.\<close>

lemma below_size_split:
  fixes P :: "nat \<Rightarrow> bool"
  shows "(\<exists>i<n. P i) \<longleftrightarrow>
     (\<exists>j. j < n div 64 \<and> (\<exists>k<64. P (64 * j + k))) \<or> (\<exists>k<n mod 64. P (64 * (n div 64) + k))"
proof
  assume "\<exists>i<n. P i"
  then obtain i where i: "i < n" "P i" by blast
  have e: "i = 64 * (i div 64) + i mod 64" by simp
  have n: "n = 64 * (n div 64) + n mod 64" by simp
  have le: "i div 64 \<le> n div 64" using i(1) by (simp add: div_le_mono)
  show "(\<exists>j. j < n div 64 \<and> (\<exists>k<64. P (64 * j + k))) \<or> (\<exists>k<n mod 64. P (64 * (n div 64) + k))"
  proof (cases "i div 64 < n div 64")
    case True
    have "i mod 64 < 64" by simp
    then show ?thesis using True i(2) e by metis
  next
    case False
    then have q: "i div 64 = n div 64" using le by simp
    then have "i mod 64 < n mod 64" using i(1) e n by linarith
    then show ?thesis using i(2) e q by metis
  qed
next
  assume a: "(\<exists>j. j < n div 64 \<and> (\<exists>k<64. P (64 * j + k))) \<or> (\<exists>k<n mod 64. P (64 * (n div 64) + k))"
  have n: "n = 64 * (n div 64) + n mod 64" by simp
  from a show "\<exists>i<n. P i"
  proof
    assume "\<exists>j. j < n div 64 \<and> (\<exists>k<64. P (64 * j + k))"
    then obtain j k where jk: "j < n div 64" "k < 64" "P (64 * j + k)" by blast
    have "64 * j + k < 64 * (n div 64)" using jk(1,2) by linarith
    then have "64 * j + k < n" using n by linarith
    then show ?thesis using jk(3) by blast
  next
    assume "\<exists>k<n mod 64. P (64 * (n div 64) + k)"
    then obtain k where k: "k < n mod 64" "P (64 * (n div 64) + k)" by blast
    have "64 * (n div 64) + k < n" using k(1) n by linarith
    then show ?thesis using k(2) by blast
  qed
qed

lemma below_size_split_words:
  fixes Q :: "nat \<Rightarrow> nat \<Rightarrow> bool"
  shows "(\<exists>i<n. Q (i div 64) (i mod 64)) \<longleftrightarrow>
     (\<exists>j. j < n div 64 \<and> (\<exists>k<64. Q j k)) \<or> (\<exists>k<n mod 64. Q (n div 64) k)"
proof -
  have dm: "\<And>j k :: nat. k < 64 \<Longrightarrow> (64 * j + k) div 64 = j \<and> (64 * j + k) mod 64 = k" by simp
  have 1: "(\<exists>j. j < n div 64 \<and> (\<exists>k<64. Q ((64 * j + k) div 64) ((64 * j + k) mod 64)))
       \<longleftrightarrow> (\<exists>j. j < n div 64 \<and> (\<exists>k<64. Q j k))"
    using dm by metis
  have "\<And>k. k < n mod 64 \<Longrightarrow> k < 64" by (rule less_trans[of _ "n mod 64"]) simp_all
  then have 2: "(\<exists>k<n mod 64. Q ((64 * (n div 64) + k) div 64) ((64 * (n div 64) + k) mod 64))
       \<longleftrightarrow> (\<exists>k<n mod 64. Q (n div 64) k)"
    using dm by metis
  show ?thesis
    using below_size_split[of n "\<lambda>i. Q (i div 64) (i mod 64)"] unfolding 1 2 .
qed

text \<open>
  The shape shared by the five queries: an early return on a whole word with a nonzero
  "violation" word \<open>v d x\<close>, then the masked tail. It finds a violation exactly when
  some position below \<open>size\<close> has its violation bit set.
\<close>

lemma query_violation:
  fixes v :: "bm_word_t \<Rightarrow> bm_word_t \<Rightarrow> bm_word_t"
  shows "(early_return (\<lambda>d x. v d x \<noteq> 0) dm om 0 (word_index n)
          \<or> (bit_in_word n > 0 \<and> tail_of_map (v (dm ! word_index n) (om ! word_index n)) (bit_in_word n) \<noteq> 0))
     \<longleftrightarrow> (\<exists>i<n. bit (v (dm ! (i div 64)) (om ! (i div 64))) (i mod 64))"
proof -
  have r: "n mod 64 < 64" by simp
  have A: "early_return (\<lambda>d x. v d x \<noteq> 0) dm om 0 (n div 64)
      \<longleftrightarrow> (\<exists>j. j < n div 64 \<and> (\<exists>k<64. bit (v (dm ! j) (om ! j)) k))"
    unfolding early_return_iff word_nonzero_bit by simp
  have B: "(n mod 64 > 0 \<and> tail_of_map (v (dm ! (n div 64)) (om ! (n div 64))) (n mod 64) \<noteq> 0)
      \<longleftrightarrow> (\<exists>k<n mod 64. bit (v (dm ! (n div 64)) (om ! (n div 64))) k)"
    unfolding tail_of_map_nonzero[OF r] by auto
  show ?thesis
    unfolding word_index_div bit_in_word_mod A B
    by (rule below_size_split_words[symmetric])
qed

lemma contains_iff:
  assumes "bm_size other = bm_size this"
  shows "contains this other \<longleftrightarrow> (\<forall>i<bm_size this. bm_at other i \<longrightarrow> bm_at this i)"
proof -
  have "contains this other \<longleftrightarrow>
      \<not> (early_return (\<lambda>d x. (NOT d AND x) \<noteq> 0) (bm_map this) (bm_map other) 0 (word_index (bm_size this))
         \<or> (bit_in_word (bm_size this) > 0
            \<and> tail_of_map (NOT (bm_map this ! word_index (bm_size this)) AND bm_map other ! word_index (bm_size this))
                 (bit_in_word (bm_size this)) \<noteq> 0))"
    by (auto simp add: contains_def Let_def)
  also have "\<dots> \<longleftrightarrow> \<not> (\<exists>i<bm_size this.
       bit (NOT (bm_map this ! (i div 64)) AND bm_map other ! (i div 64)) (i mod 64))"
    unfolding query_violation[of "\<lambda>d x. NOT d AND x"] ..
  also have "\<dots> \<longleftrightarrow> (\<forall>i<bm_size this. bm_at other i \<longrightarrow> bm_at this i)"
    by (auto simp add: bm_at_bit bit_simps)
  finally show ?thesis .
qed

lemma intersects_iff:
  assumes "bm_size other = bm_size this"
  shows "intersects this other \<longleftrightarrow> (\<exists>i<bm_size this. bm_at this i \<and> bm_at other i)"
proof -
  have "intersects this other \<longleftrightarrow>
      (early_return (\<lambda>d x. (d AND x) \<noteq> 0) (bm_map this) (bm_map other) 0 (word_index (bm_size this))
         \<or> (bit_in_word (bm_size this) > 0
            \<and> tail_of_map (bm_map this ! word_index (bm_size this) AND bm_map other ! word_index (bm_size this))
                 (bit_in_word (bm_size this)) \<noteq> 0))"
    by (auto simp add: intersects_def Let_def)
  also have "\<dots> \<longleftrightarrow> (\<exists>i<bm_size this.
       bit (bm_map this ! (i div 64) AND bm_map other ! (i div 64)) (i mod 64))"
    unfolding query_violation[of "\<lambda>d x. d AND x"] ..
  also have "\<dots> \<longleftrightarrow> (\<exists>i<bm_size this. bm_at this i \<and> bm_at other i)"
    by (auto simp add: bm_at_bit bit_simps)
  finally show ?thesis .
qed

lemma is_full_iff: "is_full this \<longleftrightarrow> (\<forall>i<bm_size this. bm_at this i)"
proof -
  have "is_full this \<longleftrightarrow>
      \<not> (early_return (\<lambda>d x. NOT d \<noteq> 0) (bm_map this) (bm_map this) 0 (word_index (bm_size this))
         \<or> (bit_in_word (bm_size this) > 0
            \<and> tail_of_map (NOT (bm_map this ! word_index (bm_size this)))
                 (bit_in_word (bm_size this)) \<noteq> 0))"
    by (auto simp add: is_full_def Let_def)
  also have "\<dots> \<longleftrightarrow> \<not> (\<exists>i<bm_size this. bit (NOT (bm_map this ! (i div 64))) (i mod 64))"
    unfolding query_violation[of "\<lambda>d x. NOT d"] ..
  also have "\<dots> \<longleftrightarrow> (\<forall>i<bm_size this. bm_at this i)"
    by (auto simp add: bm_at_bit bit_simps)
  finally show ?thesis .
qed

lemma is_empty_iff: "is_empty this \<longleftrightarrow> (\<forall>i<bm_size this. \<not> bm_at this i)"
proof -
  have "is_empty this \<longleftrightarrow>
      \<not> (early_return (\<lambda>d x. d \<noteq> 0) (bm_map this) (bm_map this) 0 (word_index (bm_size this))
         \<or> (bit_in_word (bm_size this) > 0
            \<and> tail_of_map (bm_map this ! word_index (bm_size this))
                 (bit_in_word (bm_size this)) \<noteq> 0))"
    by (auto simp add: is_empty_def Let_def)
  also have "\<dots> \<longleftrightarrow> \<not> (\<exists>i<bm_size this. bit (bm_map this ! (i div 64)) (i mod 64))"
    unfolding query_violation[of "\<lambda>d x. d"] ..
  also have "\<dots> \<longleftrightarrow> (\<forall>i<bm_size this. \<not> bm_at this i)"
    by (auto simp add: bm_at_bit)
  finally show ?thesis .
qed

lemma is_same_iff:
  assumes "bm_size other = bm_size this"
  shows "is_same this other \<longleftrightarrow> (\<forall>i<bm_size this. bm_at this i = bm_at other i)"
proof -
  have x: "d \<noteq> x \<longleftrightarrow> d XOR x \<noteq> 0" for d x :: bm_word_t
  proof -
    have "d XOR x = 0 \<longleftrightarrow> d = x"
    proof
      assume "d XOR x = 0"
      then have "(d XOR x) XOR x = x" by simp
      then show "d = x" by (simp add: xor.assoc)
    next
      assume "d = x" then show "d XOR x = 0" by simp
    qed
    then show ?thesis by simp
  qed
  have "is_same this other \<longleftrightarrow>
      \<not> (early_return (\<lambda>d x. d \<noteq> x) (bm_map this) (bm_map other) 0 (word_index (bm_size this))
         \<or> (bit_in_word (bm_size this) > 0
            \<and> tail_of_map (bm_map this ! word_index (bm_size this) XOR bm_map other ! word_index (bm_size this))
                 (bit_in_word (bm_size this)) \<noteq> 0))"
    unfolding is_same_def Let_def by auto
  also have "\<dots> \<longleftrightarrow> \<not> (\<exists>i<bm_size this.
       bit (bm_map this ! (i div 64) XOR bm_map other ! (i div 64)) (i mod 64))"
    unfolding query_violation[of "\<lambda>d x. d XOR x", unfolded x[symmetric]] ..
  also have "\<dots> \<longleftrightarrow> (\<forall>i<bm_size this. bm_at this i = bm_at other i)"
    by (auto simp add: bm_at_bit bit_simps)
  finally show ?thesis .
qed

text \<open>
  Claim C3, as amended. For equal-size bitmaps \<open>a\<close> and \<open>b\<close> and any bitmap \<open>not_a\<close>
  that is the complement of \<open>a\<close> on the positions below \<open>size\<close>: \<^verbatim>\<open>a.contains(b)\<close> is
  true if and only if \<^verbatim>\<open>not_a.intersects(b)\<close> is false. The complement is taken of the
  receiver of \<^verbatim>\<open>contains\<close>, not of its argument.
\<close>

theorem contains_intersects_C3:
  assumes "bm_wf a" and "bm_wf b" and "bm_size b = bm_size a"
    and "bm_wf not_a" and "is_complement not_a a"
  shows "contains a b \<longleftrightarrow> \<not> intersects not_a b"
proof -
  have sz: "bm_size not_a = bm_size a" and c: "\<forall>i<bm_size a. bm_at not_a i = (\<not> bm_at a i)"
    using assms(5) by (simp_all add: is_complement_def)
  have "intersects not_a b \<longleftrightarrow> (\<exists>i<bm_size a. bm_at not_a i \<and> bm_at b i)"
    using intersects_iff[of b not_a] assms(3) sz by simp
  also have "\<dots> \<longleftrightarrow> (\<exists>i<bm_size a. \<not> bm_at a i \<and> bm_at b i)"
    using c by auto
  finally show ?thesis
    unfolding contains_iff[OF assms(3)] by auto
qed

lemma bm_bit0_wf: "bm_wf bm_bit0"
  by (simp add: bm_bit0_def bm_eval)

lemma bm_none_wf: "bm_wf bm_none"
  by (simp add: bm_none_def bm_eval)

lemma bm_bit0_complement: "is_complement bm_bit0 bm_none" "is_complement bm_none bm_bit0"
  by (simp_all add: is_complement_def bm_bit0_def bm_none_def bm_eval)

text \<open>
  With the complement taken of the argument, as the specification has it, the
  equivalence fails: the one-bit bitmap with bit 0 set contains the empty one, and it
  intersects the complement of the empty one, which is itself.
\<close>

theorem contains_intersects_C3_counterexample:
  "bm_wf bm_bit0 \<and> bm_wf bm_none \<and> bm_size bm_none = bm_size bm_bit0
   \<and> is_complement bm_bit0 bm_none
   \<and> contains bm_bit0 bm_none \<and> intersects bm_bit0 bm_bit0"
  by (simp add: is_complement_def bm_bit0_def bm_none_def bm_eval contains_def intersects_def
      Let_def early_return.simps tail_of_map_def tail_mask_def)

theorem contains_intersects_C3_witness:
  "bm_wf bm_bit0 \<and> bm_wf bm_none \<and> bm_size bm_none = bm_size bm_bit0
   \<and> is_complement bm_none bm_bit0
   \<and> (contains bm_bit0 bm_none \<longleftrightarrow> \<not> intersects bm_none bm_none)
   \<and> contains bm_bit0 bm_none"
proof -
  have sz: "bm_size bm_none = bm_size bm_bit0" by (simp add: bm_bit0_def bm_none_def)
  have c: "contains bm_bit0 bm_none"
    by (simp add: bm_bit0_def bm_none_def bm_eval contains_def Let_def early_return.simps
        tail_of_map_def tail_mask_def)
  show ?thesis
    using contains_intersects_C3[OF bm_bit0_wf bm_none_wf sz bm_none_wf bm_bit0_complement(2)]
      bm_bit0_wf bm_none_wf sz bm_bit0_complement(2) c by simp
qed

lemma combine_words_length: "length (combine_words f d x i l) = length d"
  by (induction f d x i l rule: combine_words.induct) (simp add: combine_words.simps)

lemma combine_words_nth:
  "j < length d \<Longrightarrow>
   combine_words f d x i l ! j = (if i \<le> j \<and> j < l then f (d ! j) (x ! j) else d ! j)"
proof (induction f d x i l rule: combine_words.induct)
  case (1 f d x i l)
  show ?case
  proof (cases "i < l")
    case True
    have "combine_words f d x i l ! j = combine_words f (d[i := f (d ! i) (x ! i)]) x (Suc i) l ! j"
      using True by (subst combine_words.simps) simp
    also have "\<dots> = (if Suc i \<le> j \<and> j < l then f (d[i := f (d ! i) (x ! i)] ! j) (x ! j)
                      else d[i := f (d ! i) (x ! i)] ! j)"
      using "1.IH"[OF True] "1.prems" by simp
    also have "\<dots> = (if i \<le> j \<and> j < l then f (d ! j) (x ! j) else d ! j)"
    proof (cases "i = j")
      case True
      then show ?thesis using \<open>i < l\<close> "1.prems" by simp
    next
      case False
      then show ?thesis by auto
    qed
    finally show ?thesis .
  next
    case False
    then show ?thesis by (subst combine_words.simps) auto
  qed
qed

lemma combine_words_with_result_snd:
  "snd (combine_words_with_result f c d x i l) = combine_words f d x i l"
proof (induction f c d x i l rule: combine_words_with_result.induct)
  case (1 f c d x i l)
  show ?case
  proof (cases "i < l")
    case True
    then show ?thesis
      using "1.IH"[OF True refl refl]
      by (subst combine_words_with_result.simps, subst combine_words.simps) (simp add: Let_def)
  next
    case False
    then show ?thesis
      by (subst combine_words_with_result.simps, subst combine_words.simps) simp
  qed
qed

lemma disjoint_words_length:
  "count \<le> length from \<Longrightarrow> count \<le> length to \<Longrightarrow> length (disjoint_words from to count) = length to"
  by (simp add: disjoint_words_def)

lemma disjoint_words_nth:
  "count \<le> length from \<Longrightarrow> j < length to \<Longrightarrow>
   disjoint_words from to count ! j = (if j < count then from ! j else to ! j)"
  by (auto simp add: disjoint_words_def nth_append min_def)

lemma set_op_tail_frame:
  assumes len: "length dm = length m"
    and same: "\<And>j. n div 64 \<le> j \<Longrightarrow> j < length m \<Longrightarrow> dm ! j = m ! j"
    and i: "n \<le> i" "i < 64 * length m"
  shows "bit ((if n mod 64 > 0 then dm[n div 64 := merge_tail_of_map new (dm ! (n div 64)) (n mod 64)] else dm)
              ! (i div 64)) (i mod 64)
         = bit (m ! (i div 64)) (i mod 64)"
proof -
  have j: "i div 64 < length m" using i(2) by (simp add: div_less_iff_less_mult)
  have le: "n div 64 \<le> i div 64" using i(1) by (simp add: div_le_mono)
  have k: "i mod 64 < 64" by simp
  show ?thesis
  proof (cases "i div 64 = n div 64")
    case True
    have "n mod 64 \<le> i mod 64"
    proof -
      have "n = 64 * (n div 64) + n mod 64" by simp
      moreover have "i = 64 * (i div 64) + i mod 64" by simp
      ultimately show ?thesis using i(1) unfolding True by linarith
    qed
    then show ?thesis
      using True j len same[OF le j] k by (simp add: merge_tail_of_map_bit)
  next
    case False
    then show ?thesis using same[OF le j] by simp
  qed
qed

lemma same_beyond_size_merge:
  assumes sz: "bm_size y = bm_size x"
    and len: "length dm = length (bm_map x)"
    and same: "\<And>j. bm_size x div 64 \<le> j \<Longrightarrow> j < length (bm_map x) \<Longrightarrow> dm ! j = bm_map x ! j"
    and res: "bm_map y = (if bm_size x mod 64 > 0
        then dm[bm_size x div 64 := merge_tail_of_map new (dm ! (bm_size x div 64)) (bm_size x mod 64)]
        else dm)"
  shows "same_beyond_size x y"
  unfolding same_beyond_size_def
proof (intro conjI allI impI)
  show "bm_size y = bm_size x" by (rule sz)
  show "length (bm_map y) = length (bm_map x)" unfolding res using len by simp
next
  fix i assume i: "bm_size x \<le> i \<and> i < 64 * length (bm_map x)"
  show "bm_at y i = bm_at x i"
    unfolding bm_at_bit res
    using set_op_tail_frame[OF len same, of "bm_size x" i new] i by blast
qed

lemma same_beyond_size_combine:
  assumes sz: "bm_size y = bm_size x"
    and res: "bm_map y =
       (let dm = combine_words f (bm_map x) om 0 (bm_size x div 64)
        in if bm_size x mod 64 > 0
           then dm[bm_size x div 64 := merge_tail_of_map (g (dm ! (bm_size x div 64))) (dm ! (bm_size x div 64)) (bm_size x mod 64)]
           else dm)"
  shows "same_beyond_size x y"
proof (rule same_beyond_size_merge[OF sz])
  show "length (combine_words f (bm_map x) om 0 (bm_size x div 64)) = length (bm_map x)"
    by (rule combine_words_length)
  show "bm_map y = (if 0 < bm_size x mod 64
     then (combine_words f (bm_map x) om 0 (bm_size x div 64))[bm_size x div 64 :=
          merge_tail_of_map (g (combine_words f (bm_map x) om 0 (bm_size x div 64) ! (bm_size x div 64)))
           (combine_words f (bm_map x) om 0 (bm_size x div 64) ! (bm_size x div 64)) (bm_size x mod 64)]
     else combine_words f (bm_map x) om 0 (bm_size x div 64))"
    using res by (simp add: Let_def)
next
  fix j assume "bm_size x div 64 \<le> j" "j < length (bm_map x)"
  then show "combine_words f (bm_map x) om 0 (bm_size x div 64) ! j = bm_map x ! j"
    by (simp add: combine_words_nth)
qed

lemma set_union_frame: "same_beyond_size this (set_union this other)"
  by (rule same_beyond_size_combine[where f = "\<lambda>d x. d OR x" and om = "bm_map other" and g = "\<lambda>orig. orig OR bm_map other ! (bm_size this div 64)"])
     (simp_all add: set_union_def Let_def word_index_div bit_in_word_mod)

lemma set_difference_frame: "same_beyond_size this (set_difference this other)"
  by (rule same_beyond_size_combine[where f = "\<lambda>d x. d AND NOT x" and om = "bm_map other" and g = "\<lambda>orig. orig AND NOT (bm_map other ! (bm_size this div 64))"])
     (simp_all add: set_difference_def Let_def word_index_div bit_in_word_mod)

lemma set_intersection_frame: "same_beyond_size this (set_intersection this other)"
  by (rule same_beyond_size_combine[where f = "\<lambda>d x. d AND x" and om = "bm_map other" and g = "\<lambda>orig. orig AND bm_map other ! (bm_size this div 64)"])
     (simp_all add: set_intersection_def Let_def word_index_div bit_in_word_mod)

lemma split_snd: "(case p of (c, d) \<Rightarrow> h c d) = h (fst p) (snd p)"
  by (cases p) simp

lemma set_union_with_result_frame: "same_beyond_size this (snd (set_union_with_result this other))"
  by (rule same_beyond_size_combine[where f = "\<lambda>d x. d OR x" and om = "bm_map other" and g = "\<lambda>orig. orig OR bm_map other ! (bm_size this div 64)"])
     (simp_all add: set_union_with_result_def Let_def word_index_div bit_in_word_mod
        split_snd combine_words_with_result_snd)

lemma set_difference_with_result_frame:
  "same_beyond_size this (snd (set_difference_with_result this other))"
  by (rule same_beyond_size_combine[where f = "\<lambda>d x. d AND NOT x" and om = "bm_map other" and g = "\<lambda>orig. orig AND NOT (bm_map other ! (bm_size this div 64))"])
     (simp_all add: set_difference_with_result_def Let_def word_index_div bit_in_word_mod
        split_snd combine_words_with_result_snd)

lemma set_intersection_with_result_frame:
  "same_beyond_size this (snd (set_intersection_with_result this other))"
  by (rule same_beyond_size_combine[where f = "\<lambda>d x. d AND x" and om = "bm_map other" and g = "\<lambda>orig. orig AND bm_map other ! (bm_size this div 64)"])
     (simp_all add: set_intersection_with_result_def Let_def word_index_div bit_in_word_mod
        split_snd combine_words_with_result_snd)

lemma set_from_frame:
  assumes "bm_wf this" "bm_wf other" "bm_size other = bm_size this"
  shows "same_beyond_size this (set_from this other)"
proof (rule same_beyond_size_merge[where new = "bm_map other ! (bm_size this div 64)"
      and dm = "disjoint_words (bm_map other) (bm_map this) (bm_size this div 64)"])
  have len: "length (bm_map other) = length (bm_map this)"
    using assms by (simp add: bm_wf_length)
  have lim: "bm_size this div 64 \<le> length (bm_map this)"
    unfolding bm_wf_length[OF assms(1)] by (simp add: div_le_mono)
  show "bm_size (set_from this other) = bm_size this"
    by (simp add: set_from_def Let_def)
  show "length (disjoint_words (bm_map other) (bm_map this) (bm_size this div 64)) = length (bm_map this)"
    using lim len by (simp add: disjoint_words_length)
  show "bm_map (set_from this other) =
    (if 0 < bm_size this mod 64
     then (disjoint_words (bm_map other) (bm_map this) (bm_size this div 64))[bm_size this div 64 :=
          merge_tail_of_map (bm_map other ! (bm_size this div 64))
           (disjoint_words (bm_map other) (bm_map this) (bm_size this div 64) ! (bm_size this div 64))
           (bm_size this mod 64)]
     else disjoint_words (bm_map other) (bm_map this) (bm_size this div 64))"
    by (simp add: set_from_def Let_def word_index_div bit_in_word_mod)
  fix j assume "bm_size this div 64 \<le> j" "j < length (bm_map this)"
  then show "disjoint_words (bm_map other) (bm_map this) (bm_size this div 64) ! j = bm_map this ! j"
    using lim len by (simp add: disjoint_words_nth)
qed

text \<open>
  Claim C10. Every whole-bitmap mutating set operation on equal-size bitmaps leaves the
  destination's size, its number of storage words and every storage bit at a position
  from \<open>size\<close> up (the unused part of the last word) unchanged.
\<close>

theorem set_ops_frame_C10:
  assumes "bm_wf this" and "bm_wf other" and "bm_size other = bm_size this"
  shows "same_beyond_size this (set_union this other)
       \<and> same_beyond_size this (set_intersection this other)
       \<and> same_beyond_size this (set_difference this other)
       \<and> same_beyond_size this (snd (set_union_with_result this other))
       \<and> same_beyond_size this (snd (set_intersection_with_result this other))
       \<and> same_beyond_size this (snd (set_difference_with_result this other))
       \<and> same_beyond_size this (set_from this other)"
  using set_union_frame set_intersection_frame set_difference_frame
    set_union_with_result_frame set_intersection_with_result_frame
    set_difference_with_result_frame set_from_frame[OF assms]
  by blast

lemma bm_dirty_tail_wf: "bm_wf bm_dirty_tail"
  by (simp add: bm_dirty_tail_def bm_eval)

lemma bm_three_bits_wf: "bm_wf bm_three_bits"
  by (simp add: bm_three_bits_def bm_eval)

theorem set_ops_frame_C10_witness:
  "bm_wf bm_dirty_tail \<and> bm_wf bm_three_bits \<and> bm_size bm_three_bits = bm_size bm_dirty_tail
   \<and> same_beyond_size bm_dirty_tail (set_union bm_dirty_tail bm_three_bits)
   \<and> same_beyond_size bm_dirty_tail (set_intersection bm_dirty_tail bm_three_bits)
   \<and> same_beyond_size bm_dirty_tail (set_difference bm_dirty_tail bm_three_bits)
   \<and> same_beyond_size bm_dirty_tail (snd (set_union_with_result bm_dirty_tail bm_three_bits))
   \<and> same_beyond_size bm_dirty_tail (snd (set_intersection_with_result bm_dirty_tail bm_three_bits))
   \<and> same_beyond_size bm_dirty_tail (snd (set_difference_with_result bm_dirty_tail bm_three_bits))
   \<and> same_beyond_size bm_dirty_tail (set_from bm_dirty_tail bm_three_bits)
   \<and> bm_map (set_union bm_dirty_tail bm_three_bits) = [247]
   \<and> bm_map (set_from bm_dirty_tail bm_three_bits) = [242]"
proof -
  have sz: "bm_size bm_three_bits = bm_size bm_dirty_tail"
    by (simp add: bm_three_bits_def bm_dirty_tail_def)
  have u: "bm_map (set_union bm_dirty_tail bm_three_bits) = [247]"
    by (simp add: set_union_def bm_dirty_tail_def bm_three_bits_def Let_def bm_eval
        combine_words.simps merge_tail_of_map_def tail_mask_def)
  have f: "bm_map (set_from bm_dirty_tail bm_three_bits) = [242]"
    by (simp add: set_from_def bm_dirty_tail_def bm_three_bits_def Let_def bm_eval
        disjoint_words_def merge_tail_of_map_def tail_mask_def)
  show ?thesis
    using set_ops_frame_C10[OF bm_dirty_tail_wf bm_three_bits_wf sz]
      bm_dirty_tail_wf bm_three_bits_wf sz u f by simp
qed

section \<open>Allocation, resizing and the tail of the population count\<close>

lemmas alloc_eval = reallocate_def allocate_def resize_def allocator_allocate_def
  CHeapBitMap_def CHeapBitMap_resize_def ResourceBitMap_def ResourceBitMap_resize_def
  calc_size_in_words_def word_index_def idx_wrap_def BitsPerWord_def LogBitsPerWord_def
  drop_bit_eq_div Let_def disjoint_words_def clear_range_of_words_map_def upt_rec

lemma reallocate_events:
  "snd (reallocate a fresh old_map S N clear) =
     (if calc_size_in_words N > 0 then [Allocated (calc_size_in_words N)] else [])
     @ (if old_map \<noteq> [] then allocator_free a (calc_size_in_words S) else [])"
  by (simp add: reallocate_def Let_def allocator_allocate_def split_beta)

lemma reallocate_map:
  "fst (reallocate a fresh old_map S N clear) =
     (let ow = calc_size_in_words S; nw = calc_size_in_words N
      in if nw > 0
         then let map1 = (if old_map \<noteq> [] then disjoint_words old_map (map fresh [0..<nw]) (min ow nw)
                          else map fresh [0..<nw])
              in if clear \<and> nw > ow then fill_words 0 map1 ow nw else map1
         else [])"
  by (simp add: reallocate_def Let_def allocator_allocate_def split_beta clear_range_of_words_map_def)

lemma reallocate_length:
  assumes "length old_map = calc_size_in_words S"
  shows "length (fst (reallocate a fresh old_map S N clear)) = calc_size_in_words N"
  using assms
  by (auto simp add: reallocate_map Let_def fill_words_length disjoint_words_def)

lemma reallocate_copied:
  assumes "length old_map = calc_size_in_words S"
    and "j < min (calc_size_in_words S) (calc_size_in_words N)"
  shows "fst (reallocate a fresh old_map S N clear) ! j = old_map ! j"
proof -
  define ow where "ow = calc_size_in_words S"
  define nw where "nw = calc_size_in_words N"
  have j: "j < ow" "j < nw" using assms(2) by (simp_all add: ow_def nw_def)
  have ne: "old_map \<noteq> []" using assms(1) j(1) by (auto simp add: ow_def)
  define map1 where "map1 = disjoint_words old_map (map fresh [0..<nw]) (min ow nw)"
  have l1: "length map1 = nw" using assms(1) by (simp add: map1_def disjoint_words_def ow_def)
  have n1: "map1 ! j = old_map ! j"
    using j assms(1) by (simp add: map1_def disjoint_words_def nth_append ow_def)
  have "fst (reallocate a fresh old_map S N clear) = (if clear \<and> nw > ow then fill_words 0 map1 ow nw else map1)"
    using j(2) ne by (simp add: reallocate_map Let_def ow_def nw_def map1_def)
  then show ?thesis using n1 l1 j by (simp add: fill_words_nth)
qed

lemma reallocate_cleared:
  assumes "length old_map = calc_size_in_words S"
    and "clear" and "calc_size_in_words S \<le> j" and "j < calc_size_in_words N"
  shows "fst (reallocate a fresh old_map S N clear) ! j = 0"
proof -
  define ow where "ow = calc_size_in_words S"
  define nw where "nw = calc_size_in_words N"
  have j: "ow \<le> j" "j < nw" using assms(3,4) by (simp_all add: ow_def nw_def)
  define map1 where "map1 = (if old_map \<noteq> [] then disjoint_words old_map (map fresh [0..<nw]) (min ow nw)
                          else map fresh [0..<nw])"
  have l1: "length map1 = nw" using assms(1) by (simp add: map1_def disjoint_words_def ow_def)
  have "fst (reallocate a fresh old_map S N clear) = fill_words 0 map1 ow nw"
    using j assms(2) by (simp add: reallocate_map Let_def ow_def[symmetric] nw_def[symmetric] map1_def)
  then show ?thesis using l1 j by (simp add: fill_words_nth)
qed

lemma round_up_ge: "(n::nat) \<le> 64 * ((n + 63) div 64)"
  using div64_bounds(2)[of "n + 63"] by linarith

text \<open>
  Claim C6, as amended. For a well-formed bitmap of old size \<open>S\<close> and a new size \<open>N\<close>
  whose word count does not overflow, \<^verbatim>\<open>resize(N, clear)\<close> gives a bitmap of size \<open>N\<close>
  with \<open>ceil(N / 64)\<close> storage words (allocated when that number is positive), whose first
  \<open>min(ceil(S / 64), ceil(N / 64))\<close> words are the old ones, so that every bit below
  \<open>min(S, N)\<close> is preserved; when \<open>clear\<close> is requested the grown words are zero, so
  every position from \<open>64 * ceil(S / 64)\<close> up to \<open>N\<close> reads 0; and the old storage is
  handed to the allocator's \<^verbatim>\<open>free\<close>, which releases it for the C-heap allocator and
  does nothing for the resource-area and arena allocators.
\<close>

theorem resize_C6:
  assumes "bm_wf bm" and "new_size + 63 < 2 ^ 64"
  shows "bm_size (fst (resize a fresh bm new_size clear)) = new_size
       \<and> length (bm_map (fst (resize a fresh bm new_size clear))) = (new_size + 63) div 64
       \<and> take (min ((bm_size bm + 63) div 64) ((new_size + 63) div 64))
              (bm_map (fst (resize a fresh bm new_size clear)))
          = take (min ((bm_size bm + 63) div 64) ((new_size + 63) div 64)) (bm_map bm)
       \<and> (\<forall>i < min (bm_size bm) new_size. bm_at (fst (resize a fresh bm new_size clear)) i = bm_at bm i)
       \<and> (clear \<longrightarrow> (\<forall>i. 64 * ((bm_size bm + 63) div 64) \<le> i \<and> i < new_size
              \<longrightarrow> \<not> bm_at (fst (resize a fresh bm new_size clear)) i))
       \<and> snd (resize a fresh bm new_size clear)
          = (if 0 < (new_size + 63) div 64 then [Allocated ((new_size + 63) div 64)] else [])
            @ (if bm_map bm \<noteq> [] then allocator_free a ((bm_size bm + 63) div 64) else [])"
proof -
  define r where "r = reallocate a fresh (bm_map bm) (bm_size bm) new_size clear"
  define ow where "ow = (bm_size bm + 63) div 64"
  define nw where "nw = (new_size + 63) div 64"
  have cs: "calc_size_in_words (bm_size bm) = ow"
    using bm_wf_size_bound[OF assms(1)] by (simp add: calc_size_in_words_div ow_def)
  have cn: "calc_size_in_words new_size = nw"
    using assms(2) by (simp add: calc_size_in_words_div nw_def)
  have len: "length (bm_map bm) = calc_size_in_words (bm_size bm)"
    using bm_wf_length[OF assms(1)] cs by (simp add: ow_def)
  have fst_r: "fst (resize a fresh bm new_size clear) = \<lparr>bm_map = fst r, bm_size = new_size\<rparr>"
    and snd_r: "snd (resize a fresh bm new_size clear) = snd r"
    by (simp_all add: resize_def r_def split_beta)
  have l: "length (fst r) = nw"
    unfolding r_def using reallocate_length[OF len] cn by simp
  have cp: "\<And>j. j < min ow nw \<Longrightarrow> fst r ! j = bm_map bm ! j"
    unfolding r_def using reallocate_copied[OF len] cs cn by simp
  have cl: "\<And>j. clear \<Longrightarrow> ow \<le> j \<Longrightarrow> j < nw \<Longrightarrow> fst r ! j = 0"
    unfolding r_def using reallocate_cleared[OF len] cs cn by simp
  have 1: "bm_size (fst (resize a fresh bm new_size clear)) = new_size" by (simp add: fst_r)
  have 2: "length (bm_map (fst (resize a fresh bm new_size clear))) = nw" by (simp add: fst_r l)
  have 3: "take (min ow nw) (bm_map (fst (resize a fresh bm new_size clear))) = take (min ow nw) (bm_map bm)"
  proof (rule nth_equalityI)
    show "length (take (min ow nw) (bm_map (fst (resize a fresh bm new_size clear))))
        = length (take (min ow nw) (bm_map bm))"
      using l len cs by (simp add: fst_r)
  next
    fix j assume "j < length (take (min ow nw) (bm_map (fst (resize a fresh bm new_size clear))))"
    then have "j < min ow nw" by simp
    then show "take (min ow nw) (bm_map (fst (resize a fresh bm new_size clear))) ! j
        = take (min ow nw) (bm_map bm) ! j"
      using cp by (simp add: fst_r)
  qed
  have 4: "\<forall>i < min (bm_size bm) new_size. bm_at (fst (resize a fresh bm new_size clear)) i = bm_at bm i"
  proof (intro allI impI)
    fix i assume i: "i < min (bm_size bm) new_size"
    have "i < 64 * ow" "i < 64 * nw"
      unfolding ow_def nw_def using i round_up_ge[of "bm_size bm"] round_up_ge[of new_size]
      by linarith+
    then have "i div 64 < ow" "i div 64 < nw"
      by (simp_all add: div_less_iff_less_mult)
    then have "fst r ! (i div 64) = bm_map bm ! (i div 64)" using cp by simp
    then show "bm_at (fst (resize a fresh bm new_size clear)) i = bm_at bm i"
      by (simp add: bm_at_bit fst_r)
  qed
  have 5: "clear \<longrightarrow> (\<forall>i. 64 * ow \<le> i \<and> i < new_size \<longrightarrow> \<not> bm_at (fst (resize a fresh bm new_size clear)) i)"
  proof (intro allI impI)
    fix i assume c: clear and i: "64 * ow \<le> i \<and> i < new_size"
    have "ow \<le> i div 64" using i by (simp add: less_eq_div_iff_mult_less_eq mult.commute)
    moreover have "i < 64 * nw"
      unfolding nw_def using i round_up_ge[of new_size] by linarith
    then have "i div 64 < nw" by (simp add: div_less_iff_less_mult)
    ultimately have "fst r ! (i div 64) = 0" using cl c by simp
    then show "\<not> bm_at (fst (resize a fresh bm new_size clear)) i"
      by (simp add: bm_at_bit fst_r)
  qed
  have 6: "snd (resize a fresh bm new_size clear)
          = (if 0 < nw then [Allocated nw] else [])
            @ (if bm_map bm \<noteq> [] then allocator_free a ow else [])"
    unfolding snd_r r_def reallocate_events cs cn ..
  show ?thesis
    using 1 2 3 4 5 6 unfolding ow_def nw_def by blast
qed

text \<open>
  The claim as the specification states it says that \<^verbatim>\<open>resize\<close> frees the old storage.
  \<^verbatim>\<open>ResourceBitMap::resize\<close> on a one-word bitmap allocates two words and frees nothing.
\<close>

theorem resize_C6_counterexample:
  "bm_wf bm_one_word \<and> bm_map bm_one_word \<noteq> [] \<and> size_in_words bm_one_word = 1
   \<and> snd (ResourceBitMap_resize (\<lambda>i. 0) bm_one_word 128) = [Allocated 2]
   \<and> Freed 1 \<notin> set (snd (ResourceBitMap_resize (\<lambda>i. 0) bm_one_word 128))"
  by (simp add: alloc_eval fill_words.simps bm_one_word_def bm_wf_def size_in_words_def)

theorem resize_C6_witness:
  "bm_wf bm_one_word \<and> (128::nat) + 63 < 2 ^ 64
   \<and> bm_size (fst (resize CHeapBitMapAllocator (\<lambda>i. 7) bm_one_word 128 True)) = 128
   \<and> length (bm_map (fst (resize CHeapBitMapAllocator (\<lambda>i. 7) bm_one_word 128 True))) = 2
   \<and> take 1 (bm_map (fst (resize CHeapBitMapAllocator (\<lambda>i. 7) bm_one_word 128 True)))
      = take 1 (bm_map bm_one_word)
   \<and> bm_at (fst (resize CHeapBitMapAllocator (\<lambda>i. 7) bm_one_word 128 True)) 0
   \<and> bm_at bm_one_word 0
   \<and> \<not> bm_at (fst (resize CHeapBitMapAllocator (\<lambda>i. 7) bm_one_word 128 True)) 100
   \<and> snd (resize CHeapBitMapAllocator (\<lambda>i. 7) bm_one_word 128 True) = [Allocated 2, Freed 1]"
proof -
  have wf: "bm_wf bm_one_word" by (rule bm_one_word_wf)
  have n: "(128::nat) + 63 < 2 ^ 64" by simp
  have s: "bm_size bm_one_word = 64" "bm_map bm_one_word \<noteq> []" by (simp_all add: bm_one_word_def)
  have a: "bm_at bm_one_word 0" by (simp add: bm_one_word_def bm_eval)
  note r = resize_C6[OF wf n, of CHeapBitMapAllocator "\<lambda>i. 7" True]
  have kept: "bm_at (fst (resize CHeapBitMapAllocator (\<lambda>i. 7) bm_one_word 128 True)) 0
      = bm_at bm_one_word 0"
    using r s by simp
  have cleared: "\<not> bm_at (fst (resize CHeapBitMapAllocator (\<lambda>i. 7) bm_one_word 128 True)) 100"
    using r s by simp
  show ?thesis
    using r wf n s a kept cleared by simp
qed

text \<open>
  What the zero fill of \<^verbatim>\<open>reallocate\<close> does not reach: a bitmap of 64 set bits shrunk to
  one bit keeps its word, and growing it again with \<open>clear\<close> requested leaves bit 1 set.
\<close>

lemma resize_keeps_dirty_tail:
  "fst (CHeapBitMap_resize (\<lambda>i. 0)
          (fst (CHeapBitMap_resize (\<lambda>i. 0) (set_range (CHeapBitMap (\<lambda>i. 0) 64 True) 0 64) 1 True))
          64 True)
   = \<lparr>bm_map = [- 1], bm_size = 64\<rparr>"
  by (simp add: alloc_eval fill_words.simps set_range_def word_index_round_up_def bit_index_def
      set_range_within_word_def set_range_of_words_def size_in_words_def
      inverted_bit_mask_for_range_def bit_mask_def bit_in_word_def)

lemma bm_shrunk_eq: "bm_shrunk = \<lparr>bm_map = [3], bm_size = 1\<rparr>"
  by (simp add: bm_shrunk_def alloc_eval fill_words.simps set_range_def word_index_round_up_def
      bit_index_def set_range_within_word_def set_range_of_words_def size_in_words_def
      inverted_bit_mask_for_range_def bit_mask_def bit_in_word_def)

lemma bit_3_iff: "bit (3 :: bm_word_t) k \<longleftrightarrow> k < 2"
proof -
  have m: "(3 :: bm_word_t) = mask 2" by (simp add: mask_eq_exp_minus_1)
  show ?thesis unfolding m by (auto simp add: bit_simps)
qed

text \<open>
  Claim C1 at a concrete input. A C-heap bitmap of two bits, both set by
  \<^verbatim>\<open>set_range(0, 2)\<close> and then shrunk by \<^verbatim>\<open>resize(1)\<close>, has size 1 and the storage word 3.
  It agrees with the one-bit bitmap of storage word 1 at the only position below
  \<open>size\<close>, yet \<^verbatim>\<open>count_one_bits\<close> returns 2 for it and 1 for the other: the count
  includes the bit at position 1, which is not below \<open>size\<close>.
\<close>

theorem count_one_bits_tail_C1:
  "bm_wf bm_shrunk \<and> bm_wf bm_bit0 \<and> bm_size bm_shrunk = 1 \<and> bm_size bm_bit0 = 1
   \<and> bm_at bm_shrunk 0 = bm_at bm_bit0 0
   \<and> count_one_bits bm_bit0 = Some 1 \<and> count_one_bits bm_shrunk = Some 2"
proof -
  have wf: "bm_wf bm_shrunk" by (simp add: bm_shrunk_eq bm_eval)
  have a1: "bm_at bm_shrunk i = (i < 2)" if "i < 64" for i
  proof -
    have "bm_at bm_shrunk i = bit (3 :: bm_word_t) i"
      using that unfolding bm_shrunk_eq bm_at_bit by simp
    then show ?thesis by (simp only: bit_3_iff)
  qed
  have a2: "bm_at bm_bit0 i = (i = 0)" if "i < 64" for i
    using that unfolding bm_bit0_def bm_at_bit by (simp add: bit_1_iff)
  have "{i. i < 64 * length (bm_map bm_shrunk) \<and> bm_at bm_shrunk i} = {i. i < 64 \<and> i < 2}"
    using a1 by (auto simp add: bm_shrunk_eq)
  also have "\<dots> = {0, 1}" by auto
  finally have s1: "{i. i < 64 * length (bm_map bm_shrunk) \<and> bm_at bm_shrunk i} = {0, 1}" .
  have "{i. i < 64 * length (bm_map bm_bit0) \<and> bm_at bm_bit0 i} = {i. i < 64 \<and> i = 0}"
    using a2 by (auto simp add: bm_bit0_def)
  also have "\<dots> = {0}" by auto
  finally have s2: "{i. i < 64 * length (bm_map bm_bit0) \<and> bm_at bm_bit0 i} = {0}" .
  have c1: "count_one_bits bm_shrunk = Some 2"
    unfolding count_one_bits_card[OF wf] s1 by simp
  have c2: "count_one_bits bm_bit0 = Some 1"
    unfolding count_one_bits_card[OF bm_bit0_wf] s2 by simp
  have a: "bm_at bm_shrunk 0 = bm_at bm_bit0 0"
    by (simp add: bm_shrunk_eq bm_bit0_def bm_at_bit)
  show ?thesis
    using wf bm_bit0_wf c1 c2 a by (simp add: bm_shrunk_eq bm_bit0_def)
qed

section \<open>Iteration over the set bits\<close>

lemma iterate_bits_none_set:
  "(\<And>i. a \<le> i \<Longrightarrow> i < b \<Longrightarrow> \<not> bm_at bm i) \<Longrightarrow> iterate_bits blk a b c bm = (True, c, bm)"
proof (induction blk a b c bm rule: iterate_bits.induct)
  case (1 blk a b c bm)
  show ?case
  proof (cases "a < b")
    case True
    have n: "\<not> bm_at bm a" using "1.prems"[of a] True by simp
    have "iterate_bits blk a b c bm = iterate_bits blk (Suc a) b c bm"
      using True n by (subst iterate_bits.simps) simp
    also have "\<dots> = (True, c, bm)"
      using "1.IH"(2)[OF True n] "1.prems" by simp
    finally show ?thesis .
  next
    case False
    then show ?thesis by (subst iterate_bits.simps) simp
  qed
qed

lemma iterate_bits_split:
  "a \<le> m \<Longrightarrow> m \<le> r \<Longrightarrow>
   iterate_bits blk a r c bm =
     (case iterate_bits blk a m c bm of
        (continue, c', bm') \<Rightarrow> if \<not> continue then (False, c', bm') else iterate_bits blk m r c' bm')"
proof (induction blk a m c bm rule: iterate_bits.induct)
  case (1 blk a m c bm)
  show ?case
  proof (cases "a < m")
    case True
    then have ar: "a < r" using "1.prems" by simp
    show ?thesis
    proof (cases "bm_at bm a")
      case False
      have l: "iterate_bits blk a r c bm = iterate_bits blk (Suc a) r c bm"
        using ar False by (subst iterate_bits.simps) simp
      have rr: "iterate_bits blk a m c bm = iterate_bits blk (Suc a) m c bm"
        using True False by (subst iterate_bits.simps) simp
      show ?thesis
        unfolding l rr using "1.IH"(2)[OF True False] True "1.prems" by simp
    next
      case set: True
      obtain k c' bm' where b: "blk a c bm = (k, c', bm')" by (cases "blk a c bm") auto
      show ?thesis
      proof (cases k)
        case False
        have "iterate_bits blk a r c bm = (False, c', bm')"
          using ar set b False by (subst iterate_bits.simps) simp
        moreover have "iterate_bits blk a m c bm = (False, c', bm')"
          using True set b False by (subst iterate_bits.simps) simp
        ultimately show ?thesis by simp
      next
        case k: True
        have l: "iterate_bits blk a r c bm = iterate_bits blk (Suc a) r c' bm'"
          using ar set b k by (subst iterate_bits.simps) simp
        have rr: "iterate_bits blk a m c bm = iterate_bits blk (Suc a) m c' bm'"
          using True set b k by (subst iterate_bits.simps) simp
        have "\<not> \<not> k" using k by simp
        show ?thesis
          unfolding l rr
          using "1.IH"(1)[OF True set b[symmetric] refl \<open>\<not> \<not> k\<close>] True "1.prems" by simp
      qed
    qed
  next
    case False
    then have am: "a = m" using "1.prems" by simp
    have "iterate_bits blk a m c bm = (True, c, bm)"
      using False by (subst iterate_bits.simps) simp
    then show ?thesis using am by simp
  qed
qed

lemma drop_bit_64_word: "drop_bit 64 (w :: bm_word_t) = 0"
  by (simp add: drop_bit_eq_zero_iff_not_bit_last)

lemma rest_facts:
  fixes w :: bm_word_t
  assumes lo: "64 * index \<le> offset" and hi: "offset \<le> 64 * index + 64"
    and nz: "drop_bit (offset - 64 * index) w \<noteq> 0"
  shows "offset < 64 * index + 64"
    and "offset div 64 = index" and "offset mod 64 = offset - 64 * index"
    and "offset AND (BitsPerWord - 1) = offset - 64 * index"
    and "(drop_bit (offset - 64 * index) w AND 1 \<noteq> 0) = bit w (offset mod 64)"
proof -
  show lt: "offset < 64 * index + 64"
  proof (rule ccontr)
    assume "\<not> offset < 64 * index + 64"
    then have "offset - 64 * index = 64" using hi by simp
    then show False using nz by (simp add: drop_bit_64_word)
  qed
  obtain k where k: "offset = 64 * index + k" "k < 64"
    using lo lt by (metis add_diff_inverse_nat add_less_cancel_left not_less)
  show d: "offset div 64 = index" and m: "offset mod 64 = offset - 64 * index"
    using k by simp_all
  show "offset AND (BitsPerWord - 1) = offset - 64 * index"
    using bit_in_word_mod[of offset] m by (simp add: bit_in_word_def)
  have "(drop_bit (offset - 64 * index) w AND 1 \<noteq> 0) = bit (drop_bit (offset - 64 * index) w) 0"
    by (simp add: and_one_eq bit_0 mod_2_eq_odd)
  also have "\<dots> = bit w (offset mod 64)"
    by (simp add: bit_drop_bit_eq m)
  finally show "(drop_bit (offset - 64 * index) w AND 1 \<noteq> 0) = bit w (offset mod 64)" .
qed

lemma iterate_inner_bits:
  "64 * index \<le> offset \<Longrightarrow> offset \<le> 64 * index + 64
   \<Longrightarrow> rest = drop_bit (offset - 64 * index) (bm_map bm ! index)
   \<Longrightarrow> iterate_inner blk right index offset rest c bm
       = iterate_bits blk offset (min right (64 * index + 64)) c bm"
proof (induction blk right index offset rest c bm rule: iterate_inner.induct)
  case (1 blk right index offset rest c bm)
  let ?m = "min right (64 * index + 64)"
  show ?case
  proof (cases "offset < right \<and> rest \<noteq> 0")
    case True
    then have olt: "offset < right" and nz: "rest \<noteq> 0" by simp_all
    note f = rest_facts[OF "1.prems"(1,2) nz[unfolded "1.prems"(3)]]
    have om: "offset < ?m" using olt f(1) by simp
    have at: "(rest AND 1 \<noteq> 0) = bm_at bm offset"
      unfolding "1.prems"(3) f(5) bm_at_bit f(2) ..
    have nx: "64 * index \<le> Suc offset" "Suc offset \<le> 64 * index + 64"
      using "1.prems"(1) f(1) by simp_all
    show ?thesis
    proof (cases "bm_at bm offset")
      case False
      have r1: "rest AND 1 = 0" using at False by simp
      have l: "iterate_inner blk right index offset rest c bm
          = iterate_inner blk right index (Suc offset) (drop_bit 1 rest) c bm"
        using True r1 by (subst iterate_inner.simps) simp
      have rr: "iterate_bits blk offset ?m c bm = iterate_bits blk (Suc offset) ?m c bm"
        using om False by (subst iterate_bits.simps) simp
      have d: "drop_bit 1 rest = drop_bit (Suc offset - 64 * index) (bm_map bm ! index)"
        unfolding "1.prems"(3) using "1.prems"(1) by (simp add: drop_bit_drop_bit Suc_diff_le)
      have r1': "\<not> rest AND 1 \<noteq> 0" using r1 by simp
      show ?thesis
        unfolding l rr using "1.IH"(2)[OF True r1' nx d] .
    next
      case set: True
      have r1: "rest AND 1 \<noteq> 0" using at set by simp
      obtain k c' bm' where b: "blk offset c bm = (k, c', bm')" by (cases "blk offset c bm") auto
      show ?thesis
      proof (cases k)
        case False
        have "iterate_inner blk right index offset rest c bm = (False, c', bm')"
          using True r1 b False by (subst iterate_inner.simps) simp
        moreover have "iterate_bits blk offset ?m c bm = (False, c', bm')"
          using om set b False by (subst iterate_bits.simps) simp
        ultimately show ?thesis by simp
      next
        case k: True
        define rest' where "rest' = drop_bit (offset AND (BitsPerWord - 1)) (bm_map bm' ! index)"
        have l: "iterate_inner blk right index offset rest c bm
            = iterate_inner blk right index (Suc offset) (drop_bit 1 rest') c' bm'"
          using True r1 b k by (subst iterate_inner.simps) (simp add: rest'_def Let_def)
        have rr: "iterate_bits blk offset ?m c bm = iterate_bits blk (Suc offset) ?m c' bm'"
          using om set b k by (subst iterate_bits.simps) simp
        have d: "drop_bit 1 rest' = drop_bit (Suc offset - 64 * index) (bm_map bm' ! index)"
          unfolding rest'_def f(4) using "1.prems"(1) by (simp add: drop_bit_drop_bit Suc_diff_le)
        have nk: "\<not> \<not> k" using k by simp
        show ?thesis
          unfolding l rr
          using "1.IH"(1)[OF True r1 b[symmetric] refl nk rest'_def nx d] .
      qed
    qed
  next
    case False
    have l: "iterate_inner blk right index offset rest c bm = (True, c, bm)"
      using False by (subst iterate_inner.simps) auto
    have "iterate_bits blk offset ?m c bm = (True, c, bm)"
    proof (rule iterate_bits_none_set)
      fix i assume i: "offset \<le> i" "i < ?m"
      then have "offset < right" by simp
      then have z: "rest = 0" using False by simp
      have ilt: "i < 64 * index + 64" using i(2) by simp
      have ige: "64 * index \<le> i" using i(1) "1.prems"(1) by simp
      obtain k where k: "i = 64 * index + k" "k < 64"
        using ige ilt by (metis add_diff_inverse_nat add_less_cancel_left not_less)
      have dm: "i div 64 = index" "i mod 64 = k" using k by simp_all
      have ok: "offset - 64 * index \<le> k" using i(1) k(1) by simp
      have "bit (drop_bit (offset - 64 * index) (bm_map bm ! index)) (k - (offset - 64 * index))
          = bit (bm_map bm ! index) k"
        using ok by (simp add: bit_drop_bit_eq)
      then have "\<not> bit (bm_map bm ! index) k"
        using z "1.prems"(3) by simp
      then show "\<not> bm_at bm i" by (simp add: bm_at_bit dm)
    qed
    then show ?thesis using l by simp
  qed
qed

lemma iterate_outer_bits:
  "64 * index \<le> offset \<Longrightarrow> offset < 64 * index + 64
   \<Longrightarrow> right \<le> 64 * endIndex \<Longrightarrow> 64 * endIndex < 2 ^ 64
   \<Longrightarrow> iterate_outer blk right endIndex index offset c bm = iterate_bits blk offset right c bm"
proof (induction blk right endIndex index offset c bm rule: iterate_outer.induct)
  case (1 blk right endIndex index offset c bm)
  show ?case
  proof (cases "offset < right \<and> index < endIndex")
    case True
    then have olt: "offset < right" and ilt: "index < endIndex" by simp_all
    define m where "m = min right (64 * index + 64)"
    define rest where "rest = drop_bit (offset AND (BitsPerWord - 1)) (bm_map bm ! index)"
    obtain k where k: "offset = 64 * index + k" "k < 64"
      using "1.prems"(1,2) by (metis add_diff_inverse_nat add_less_cancel_left not_less)
    have a: "offset AND (BitsPerWord - 1) = offset - 64 * index"
      using bit_in_word_mod[of offset] k by (simp add: bit_in_word_def)
    have inner: "iterate_inner blk right index offset rest c bm = iterate_bits blk offset m c bm"
      unfolding m_def rest_def a using "1.prems"(1,2) by (intro iterate_inner_bits) simp_all
    obtain r c' bm' where res: "iterate_inner blk right index offset rest c bm = (r, c', bm')"
      by (cases "iterate_inner blk right index offset rest c bm") auto
    have om: "offset \<le> m" "m \<le> right" using olt "1.prems"(2) by (simp_all add: m_def)
    have split: "iterate_bits blk offset right c bm
        = (if \<not> r then (False, c', bm') else iterate_bits blk m right c' bm')"
    proof -
      have ib: "iterate_bits blk offset m c bm = (r, c', bm')" using inner res by simp
      show ?thesis unfolding iterate_bits_split[OF om, of blk c bm] ib by simp
    qed
    have step: "iterate_outer blk right endIndex index offset c bm =
        (if \<not> r then (False, c', bm')
         else iterate_outer blk right endIndex (Suc index) (bit_index (Suc index)) c' bm')"
      by (subst iterate_outer.simps, simp only: True if_True Let_def rest_def[symmetric] res prod.case simp_thms)
    show ?thesis
    proof (cases r)
      case False
      have "iterate_outer blk right endIndex index offset c bm = (False, c', bm')"
        unfolding step using False by simp
      then show ?thesis using split False by simp
    next
      case r: True
      have "64 * Suc index \<le> 64 * endIndex" using ilt by simp
      then have w: "64 * Suc index < 2 ^ 64" using "1.prems"(4) by linarith
      have bi: "bit_index (Suc index) = 64 * Suc index" using w by (rule bit_index_mult)
      have l: "iterate_outer blk right endIndex index offset c bm
          = iterate_outer blk right endIndex (Suc index) (64 * Suc index) c' bm'"
        unfolding step using r by (simp add: bi)
      have nr: "\<not> \<not> r" using r by simp
      have ih: "iterate_outer blk right endIndex (Suc index) (64 * Suc index) c' bm'
          = iterate_bits blk (64 * Suc index) right c' bm'"
        using "1.IH"[OF True rest_def res[symmetric] refl nr, unfolded bi] "1.prems"(3,4) by simp
      have "iterate_bits blk (64 * Suc index) right c' bm' = iterate_bits blk m right c' bm'"
      proof (cases "64 * index + 64 \<le> right")
        case True
        then have "m = 64 * Suc index" by (simp add: m_def)
        then show ?thesis by simp
      next
        case False
        then have mr: "m = right" by (simp add: m_def)
        have "iterate_bits blk (64 * Suc index) right c' bm' = (True, c', bm')"
          using False by (subst iterate_bits.simps) simp
        moreover have "iterate_bits blk right right c' bm' = (True, c', bm')"
          by (subst iterate_bits.simps) simp
        ultimately show ?thesis using mr by simp
      qed
      then show ?thesis using l ih split r by simp
    qed
  next
    case False
    have ge: "right \<le> offset"
    proof (cases "offset < right")
      case True
      then have "endIndex \<le> index" using False by simp
      then have "64 * endIndex \<le> 64 * index" by simp
      then show ?thesis using "1.prems"(1,3) by linarith
    next
      case False
      then show ?thesis by simp
    qed
    have "iterate_outer blk right endIndex index offset c bm = (True, c, bm)"
      using False by (subst iterate_outer.simps) auto
    moreover have "iterate_bits blk offset right c bm = (True, c, bm)"
      using ge by (subst iterate_bits.simps) simp
    ultimately show ?thesis by simp
  qed
qed

lemma iterate_eq_iterate_bits:
  assumes wf: "bm_wf bm" and vr: "verify_range bm left right"
  shows "iterate blk left right c bm = iterate_bits blk left right c bm"
proof -
  define endIndex where "endIndex = min (word_index right + 1) (size_in_words bm)"
  have rs: "right \<le> bm_size bm" using vr by (simp add: verify_range_iff)
  have sw: "size_in_words bm = (bm_size bm + 63) div 64"
    using wf bm_wf_length[OF wf] by (simp add: bm_wf_def)
  have 1: "right \<le> 64 * (right div 64 + 1)" using div64_bounds(2)[of right] by simp
  have 2: "right \<le> 64 * size_in_words bm"
    unfolding sw using rs round_up_ge[of "bm_size bm"] by linarith
  have re: "right \<le> 64 * endIndex"
    using 1 2 by (simp add: endIndex_def word_index_div min_def)
  have "64 * size_in_words bm \<le> bm_size bm + 63" unfolding sw by simp
  then have "64 * endIndex \<le> bm_size bm + 63" by (simp add: endIndex_def min_def)
  then have ew: "64 * endIndex < 2 ^ 64" using bm_wf_size_bound[OF wf] by linarith
  have lo: "64 * word_index left \<le> left" "left < 64 * word_index left + 64"
    unfolding word_index_div by (rule div64_bounds)+
  show ?thesis
    unfolding iterate_def Let_def endIndex_def[symmetric]
    using lo re ew by (rule iterate_outer_bits)
qed

lemma visits_ok_Nil: "visits_ok a r True []"
  by (simp add: visits_ok_def)

lemma visits_ok_stop:
  "a < r \<Longrightarrow> visits_ok a r False [\<lparr>visit_pos = a, visit_seen = True, visit_answer = False\<rparr>]"
  by (simp add: visits_ok_def)

lemma visits_ok_skip: "visits_ok (Suc a) r res vs \<Longrightarrow> visits_ok a r res vs"
  by (auto simp add: visits_ok_def list_all_iff)

lemma visits_ok_Cons:
  assumes "visits_ok (Suc a) r res vs" "a < r"
  shows "visits_ok a r res (\<lparr>visit_pos = a, visit_seen = True, visit_answer = True\<rparr> # vs)"
proof -
  have s: "sorted_wrt (<) (map visit_pos vs)"
    and l: "list_all (\<lambda>v. Suc a \<le> visit_pos v \<and> visit_pos v < r \<and> visit_seen v) vs"
    and b: "list_all visit_answer (butlast vs)"
    and e: "res \<longleftrightarrow> vs = [] \<or> visit_answer (last vs)"
    using assms(1) by (simp_all add: visits_ok_def)
  have gt: "\<forall>v\<in>set vs. a < visit_pos v" using l by (auto simp add: list_all_iff)
  have l': "list_all (\<lambda>v. a \<le> visit_pos v \<and> visit_pos v < r \<and> visit_seen v) vs"
    using l by (auto simp add: list_all_iff)
  show ?thesis
    unfolding visits_ok_def using s gt l' b e assms(2) by (cases vs) auto
qed

lemma iterate_bits_logging:
  "iterate_bits (logging blk) a r (log0, c) bm = (res, (log, c'), bm')
   \<Longrightarrow> \<exists>vs. log = log0 @ vs \<and> visits_ok a r res vs \<and> iterate_bits blk a r c bm = (res, c', bm')"
proof (induction "r - a" arbitrary: a log0 c bm rule: less_induct)
  case less
  show ?case
  proof (cases "a < r")
    case False
    have "iterate_bits (logging blk) a r (log0, c) bm = (True, (log0, c), bm)"
      using False by (subst iterate_bits.simps) simp
    moreover have "iterate_bits blk a r c bm = (True, c, bm)"
      using False by (subst iterate_bits.simps) simp
    ultimately show ?thesis using less.prems visits_ok_Nil by auto
  next
    case True
    then have m: "r - Suc a < r - a" by simp
    show ?thesis
    proof (cases "bm_at bm a")
      case False
      have "iterate_bits (logging blk) a r (log0, c) bm = iterate_bits (logging blk) (Suc a) r (log0, c) bm"
        using True False by (subst iterate_bits.simps) simp
      then have "iterate_bits (logging blk) (Suc a) r (log0, c) bm = (res, (log, c'), bm')"
        using less.prems by simp
      then obtain vs where vs: "log = log0 @ vs" "visits_ok (Suc a) r res vs"
        "iterate_bits blk (Suc a) r c bm = (res, c', bm')"
        using less.hyps[OF m] by blast
      have "iterate_bits blk a r c bm = iterate_bits blk (Suc a) r c bm"
        using True False by (subst iterate_bits.simps) simp
      then show ?thesis using vs visits_ok_skip by auto
    next
      case set: True
      obtain k c1 bm1 where b: "blk a c bm = (k, c1, bm1)" by (cases "blk a c bm") auto
      define v where "v = \<lparr>visit_pos = a, visit_seen = True, visit_answer = k\<rparr>"
      have lb: "logging blk a (log0, c) bm = (k, (log0 @ [v], c1), bm1)"
        by (simp add: logging_def b v_def set)
      show ?thesis
      proof (cases k)
        case False
        have "iterate_bits (logging blk) a r (log0, c) bm = (False, (log0 @ [v], c1), bm1)"
          using True set lb False by (subst iterate_bits.simps) simp
        then have eq: "res = False" "log = log0 @ [v]" "c' = c1" "bm' = bm1"
          using less.prems by simp_all
        have "iterate_bits blk a r c bm = (False, c1, bm1)"
          using True set b False by (subst iterate_bits.simps) simp
        moreover have "visits_ok a r False [v]"
          unfolding v_def using False visits_ok_stop[OF True] by simp
        ultimately show ?thesis using eq by auto
      next
        case k: True
        have "iterate_bits (logging blk) a r (log0, c) bm
            = iterate_bits (logging blk) (Suc a) r (log0 @ [v], c1) bm1"
          using True set lb k by (subst iterate_bits.simps) simp
        then have "iterate_bits (logging blk) (Suc a) r (log0 @ [v], c1) bm1 = (res, (log, c'), bm')"
          using less.prems by simp
        then obtain vs where vs: "log = (log0 @ [v]) @ vs" "visits_ok (Suc a) r res vs"
          "iterate_bits blk (Suc a) r c1 bm1 = (res, c', bm')"
          using less.hyps[OF m] by blast
        have "iterate_bits blk a r c bm = iterate_bits blk (Suc a) r c1 bm1"
          using True set b k by (subst iterate_bits.simps) simp
        moreover have "visits_ok a r res (v # vs)"
          unfolding v_def using k visits_ok_Cons[OF vs(2) True] by simp
        ultimately show ?thesis using vs(1,3) by auto
      qed
    qed
  qed
qed

text \<open>
  Claim C8. On a well-formed bitmap, a valid range and a closure that leaves the size and
  the number of storage words alone (it may change any bit), \<^verbatim>\<open>iterate\<close> is the
  position-by-position traversal \<open>iterate_bits\<close>: positions in increasing order, each
  looked up in the bitmap as the closure calls so far have left it, false at the first
  refusal and true at the end of the range. Run with a closure that also records its
  calls, it makes the calls described by \<open>visits_ok\<close>: at strictly increasing positions
  of \<open>[left, right)\<close>, each at a bit that was set when the call was made, every answer
  but the last one "go on", and the result false exactly when the last answer was
  "stop"; the recording changes neither the result nor the closure's state nor the
  bitmap.
\<close>

theorem iterate_C8:
  assumes "bm_wf bm" and "verify_range bm leftOffset rightOffset" and "keeps_shape blk"
  shows "iterate blk leftOffset rightOffset c bm = iterate_bits blk leftOffset rightOffset c bm
       \<and> (case iterate (logging blk) leftOffset rightOffset ([], c) bm of
            (result, (log, c'), bm') \<Rightarrow>
              visits_ok leftOffset rightOffset result log
              \<and> iterate blk leftOffset rightOffset c bm = (result, c', bm'))"
proof -
  define out where "out = iterate (logging blk) leftOffset rightOffset ([], c) bm"
  obtain res log c' bm' where r0: "out = (res, (log, c'), bm')"
    by (cases out) auto
  have r: "iterate (logging blk) leftOffset rightOffset ([], c) bm = (res, (log, c'), bm')"
    using r0 unfolding out_def .
  have e1: "iterate blk leftOffset rightOffset c bm = iterate_bits blk leftOffset rightOffset c bm"
    using assms(1,2) by (rule iterate_eq_iterate_bits)
  have e2: "iterate (logging blk) leftOffset rightOffset ([], c) bm
      = iterate_bits (logging blk) leftOffset rightOffset ([], c) bm"
    using assms(1,2) by (rule iterate_eq_iterate_bits)
  have e3: "iterate_bits (logging blk) leftOffset rightOffset ([], c) bm = (res, (log, c'), bm')"
    using e2 r by (rule trans[OF sym])
  from iterate_bits_logging[OF e3]
  obtain vs where vs: "log = [] @ vs" "visits_ok leftOffset rightOffset res vs"
    "iterate_bits blk leftOffset rightOffset c bm = (res, c', bm')"
    by blast
  have 2: "visits_ok leftOffset rightOffset res log" using vs(1,2) by simp
  have 3: "iterate blk leftOffset rightOffset c bm = (res, c', bm')" using e1 vs(3) by (rule trans)
  show ?thesis
    unfolding r prod.case using e1 2 3 by (intro conjI)
qed

lemma set_range_length: "length (bm_map (set_range bm b e)) = length (bm_map bm)"
  by (simp add: set_range_def Let_def set_range_within_word_length set_range_of_words_def
      fill_words_length)

lemmas sr_eval = bm_eight_bits_def bm_eval Let_def set_range_def word_index_round_up_def bit_index_def
  set_range_within_word_def set_range_of_words_def inverted_bit_mask_for_range_def

lemma relay_at_0: "relay_closure 0 c bm_eight_bits = (True, Suc c, \<lparr>bm_map = [5], bm_size = 8\<rparr>)"
  by (simp add: relay_closure_def sr_eval)

lemma relay_at_2: "relay_closure 2 c \<lparr>bm_map = [5], bm_size = 8\<rparr> = (False, Suc c, \<lparr>bm_map = [21], bm_size = 8\<rparr>)"
  by (simp add: relay_closure_def sr_eval)

lemma relay_at: "bm_at bm_eight_bits 0" "\<not> bm_at \<lparr>bm_map = [5], bm_size = 8\<rparr> (Suc 0)" "bm_at \<lparr>bm_map = [5], bm_size = 8\<rparr> 2"
  by (simp_all add: sr_eval)

lemma relay_bits: "iterate_bits relay_closure 0 8 0 bm_eight_bits = (False, 2, \<lparr>bm_map = [21], bm_size = 8\<rparr>)"
proof -
  have "iterate_bits relay_closure 0 8 0 bm_eight_bits
      = iterate_bits relay_closure (Suc 0) 8 (Suc 0) \<lparr>bm_map = [5], bm_size = 8\<rparr>"
    by (subst iterate_bits.simps) (simp add: relay_at relay_at_0)
  also have "\<dots> = iterate_bits relay_closure 2 8 (Suc 0) \<lparr>bm_map = [5], bm_size = 8\<rparr>"
    by (subst iterate_bits.simps) (simp add: relay_at numeral_2_eq_2[symmetric])
  also have "\<dots> = (False, 2, \<lparr>bm_map = [21], bm_size = 8\<rparr>)"
    by (subst iterate_bits.simps) (simp add: relay_at relay_at_2)
  finally show ?thesis .
qed
lemma relay_log:
  "iterate_bits (logging relay_closure) 0 8 ([], 0) bm_eight_bits
   = (False,
      ([\<lparr>visit_pos = 0, visit_seen = True, visit_answer = True\<rparr>,
        \<lparr>visit_pos = 2, visit_seen = True, visit_answer = False\<rparr>], 2),
      \<lparr>bm_map = [21], bm_size = 8\<rparr>)"
proof -
  have "iterate_bits (logging relay_closure) 0 8 ([], 0) bm_eight_bits
      = iterate_bits (logging relay_closure) (Suc 0) 8
          ([\<lparr>visit_pos = 0, visit_seen = True, visit_answer = True\<rparr>], Suc 0)
          \<lparr>bm_map = [5], bm_size = 8\<rparr>"
    by (subst iterate_bits.simps) (simp add: relay_at relay_at_0 logging_def)
  also have "\<dots> = iterate_bits (logging relay_closure) 2 8
          ([\<lparr>visit_pos = 0, visit_seen = True, visit_answer = True\<rparr>], Suc 0)
          \<lparr>bm_map = [5], bm_size = 8\<rparr>"
    by (subst iterate_bits.simps) (simp add: relay_at numeral_2_eq_2[symmetric])
  also have "\<dots> = (False,
      ([\<lparr>visit_pos = 0, visit_seen = True, visit_answer = True\<rparr>,
        \<lparr>visit_pos = 2, visit_seen = True, visit_answer = False\<rparr>], 2),
      \<lparr>bm_map = [21], bm_size = 8\<rparr>)"
    by (subst iterate_bits.simps) (simp add: relay_at relay_at_2 logging_def)
  finally show ?thesis .
qed

lemma bm_eight_bits_wf: "bm_wf bm_eight_bits"
  by (simp add: bm_eight_bits_def bm_eval)

lemma keeps_shape_relay_closure: "keeps_shape relay_closure"
  by (simp add: keeps_shape_def relay_closure_def set_range_size set_range_length)

text \<open>
  An instance with a closure that edits the bitmap: called at position 0 it sets bit 2,
  called at position 2 it sets bit 4 and asks to stop. Started on the bitmap with only
  bit 0 set, the traversal visits 0 and then 2, the bit the closure itself has set, and
  stops there; bit 4 is never visited.
\<close>

theorem iterate_C8_witness:
  "bm_wf bm_eight_bits \<and> verify_range bm_eight_bits 0 8 \<and> keeps_shape relay_closure
   \<and> iterate relay_closure 0 8 0 bm_eight_bits = (False, 2, \<lparr>bm_map = [21], bm_size = 8\<rparr>)
   \<and> iterate (logging relay_closure) 0 8 ([], 0) bm_eight_bits
       = (False,
          ([\<lparr>visit_pos = 0, visit_seen = True, visit_answer = True\<rparr>,
            \<lparr>visit_pos = 2, visit_seen = True, visit_answer = False\<rparr>], 2),
          \<lparr>bm_map = [21], bm_size = 8\<rparr>)
   \<and> visits_ok 0 8 False
        [\<lparr>visit_pos = 0, visit_seen = True, visit_answer = True\<rparr>,
         \<lparr>visit_pos = 2, visit_seen = True, visit_answer = False\<rparr>]"
proof -
  have wf: "bm_wf bm_eight_bits" by (rule bm_eight_bits_wf)
  have vr: "verify_range bm_eight_bits 0 8"
    by (simp add: verify_range_def verify_index_def bm_eight_bits_def)
  have ks: "keeps_shape relay_closure" by (rule keeps_shape_relay_closure)
  have lg: "iterate (logging relay_closure) 0 8 ([], 0) bm_eight_bits
       = (False,
          ([\<lparr>visit_pos = 0, visit_seen = True, visit_answer = True\<rparr>,
            \<lparr>visit_pos = 2, visit_seen = True, visit_answer = False\<rparr>], 2),
          \<lparr>bm_map = [21], bm_size = 8\<rparr>)"
    using iterate_eq_iterate_bits[OF wf vr, of "logging relay_closure" "([], 0)"] relay_log
    by (rule trans)
  show ?thesis
    using iterate_C8[OF wf vr ks, of 0] wf vr ks relay_bits
    unfolding lg prod.case by simp
qed

section \<open>The floor of the mandatory pass\<close>

lemma mandatory_pass_floor:
  "num \<le> max_len \<Longrightarrow>
   min (min min_len max_len) (num + length candidates)
     \<le> mandatory_pass min_len max_len budget candidates num used"
proof (induction candidates arbitrary: num used)
  case Nil
  then show ?case by simp
next
  case (Cons cost candidates)
  have step: "min (min min_len max_len) (num + length (cost # candidates))
      \<le> mandatory_pass min_len max_len budget candidates (Suc num) (used + cost)"
    if "num < max_len"
    using Cons.IH[of "Suc num" "used + cost"] that by simp
  show ?case
  proof (cases "num \<ge> max_len")
    case True
    then show ?thesis by simp
  next
    case False
    then have lt: "num < max_len" by simp
    show ?thesis
    proof (cases "num < min_len")
      case True
      then show ?thesis using False step[OF lt] by simp
    next
      case nf: False
      show ?thesis
      proof (cases "used + cost \<le> budget")
        case True
        then show ?thesis using False nf step[OF lt] by simp
      next
        case False
        then show ?thesis using nf lt by simp
      qed
    qed
  qed
qed

lemma mandatory_pass_ceiling:
  "num \<le> max_len \<Longrightarrow> mandatory_pass min_len max_len budget candidates num used \<le> max_len"
  by (induction candidates arbitrary: num used) auto

text \<open>
  Claim C9, as amended. Whatever the budgets and the predicted costs are, the mandatory
  pass selects at least as many regions as the smallest of the configured minimum count,
  the configured maximum count and the number of candidates. The result is a plain
  count: there is no failure value an overrun of the budget could be reported with.
\<close>

theorem mandatory_floor_C9:
  "min (min min_old_cset_length max_old_cset_length) (length candidates)
     \<le> fst (calculate_old_collection_set_regions min_old_cset_length max_old_cset_length
              max_optional_regions mandatory_budget optional_budget candidates)"
  using mandatory_pass_floor[of 0 max_old_cset_length min_old_cset_length candidates
      mandatory_budget 0]
  by (simp add: calculate_old_collection_set_regions_def Let_def)

text \<open>
  For every candidate list the claim cannot hold: with a single candidate and a
  configured minimum of two regions, one region is selected.
\<close>

theorem mandatory_floor_C9_counterexample:
  "fst (calculate_old_collection_set_regions 2 10 5 (15::nat) 5 [10]) < 2"
  by (simp add: calculate_old_collection_set_regions_def Let_def)

text \<open>
  The two examples of the specification: costs of 10, 8 and 40 ms and a minimum of one
  region. With a mandatory budget of 15 ms the first region is selected; with 20 ms the
  first two.
\<close>

lemma mandatory_pass_examples:
  "fst (calculate_old_collection_set_regions 1 10 5 (15::nat) 5 [10, 8, 40]) = 1"
  "fst (calculate_old_collection_set_regions 1 10 5 (20::nat) 5 [10, 8, 40]) = 2"
  by (simp_all add: calculate_old_collection_set_regions_def Let_def)

text \<open>The floor overrides the budget: a minimum of two regions with no budget at all.\<close>

lemma mandatory_pass_overrun:
  "fst (calculate_old_collection_set_regions 2 10 5 (0::nat) 0 [10, 8, 40]) = 2"
  by (simp add: calculate_old_collection_set_regions_def Let_def)

section \<open>Concurrent partial-word writes\<close>

lemma par_new_word_bit:
  assumes be: "b < e" and sw: "e \<le> 64 * (b div 64) + 64" and k: "k < 64"
  shows "bit (par_new_word v w (inverted_bit_mask_for_range b e)) k
       = (if b \<le> 64 * (b div 64) + k \<and> 64 * (b div 64) + k < e then v else bit w k)"
  using same_word_arith[OF be sw k, of "b div 64"] k
  by (auto simp add: par_new_word_def bit_simps inverted_mask_bit)

lemma single_word_range_iff:
  "single_word_range bm b e \<longleftrightarrow>
     b \<le> e \<and> e \<le> 64 * (b div 64) + 64 \<and> (b = e \<or> b div 64 < length (bm_map bm))"
  by (simp add: single_word_range_def BitsPerWord_def word_index_div)

lemma par_inv_init:
  "par_inv bm0 b1 e1 v1 b2 e2 v2 (bm0, par_put_start b1 e1 v1, par_put_start b2 e2 v2)"
  by (simp add: par_inv_def par_put_start_def par_local_def par_expected_def)

lemma in_range_same_word:
  assumes "b < e" "e \<le> 64 * (b div 64) + 64" "k < 64" "j \<noteq> b div 64"
  shows "\<not> in_range b e j k"
  using same_word_arith[OF assms(1,2,3), of j] assms(4) by (simp add: in_range_def)

lemma thread_step_effect:
  assumes loc: "par_local t" and sw: "single_word_range bm (pp_beg t) (pp_end t)"
    and st: "par_put_range_within_word_step bm t = Some (bm', t')"
  shows "pp_beg t' = pp_beg t \<and> pp_end t' = pp_end t \<and> pp_value t' = pp_value t
       \<and> par_local t' \<and> pp_pc t \<noteq> Done
       \<and> bm_size bm' = bm_size bm \<and> length (bm_map bm') = length (bm_map bm)
       \<and> (pp_pc t' \<noteq> Done \<longrightarrow> bm' = bm)
       \<and> (pp_pc t' = Done \<longrightarrow> (\<forall>j<length (bm_map bm). \<forall>k<64.
              bit (bm_map bm' ! j) k =
                (if in_range (pp_beg t) (pp_end t) j k then pp_value t else bit (bm_map bm ! j) k)))"
proof (cases "pp_pc t")
  case Start
  show ?thesis
  proof (cases "pp_beg t = pp_end t")
    case True
    then have "bm' = bm" "t' = t\<lparr>pp_pc := Done\<rparr>"
      using st Start by (simp_all add: par_put_range_within_word_step.simps)
    then show ?thesis using Start True by (auto simp add: par_local_def in_range_def)
  next
    case False
    then have "bm' = bm"
      "t' = t\<lparr>pp_pc := Retry (bm_map bm ! word_index (pp_beg t))
          (par_new_word (pp_value t) (bm_map bm ! word_index (pp_beg t))
             (inverted_bit_mask_for_range (pp_beg t) (pp_end t)))\<rparr>"
      using st Start False by (auto simp add: par_put_range_within_word_step.simps Let_def)
    then show ?thesis using Start False by (simp add: par_local_def)
  qed
next
  case Done
  then show ?thesis using st by (simp add: par_put_range_within_word_step.simps)
next
  case (Retry w nw)
  define b where "b = pp_beg t"
  define e where "e = pp_end t"
  define v where "v = pp_value t"
  define pw where "pw = b div 64"
  have ne: "b \<noteq> e" and nw: "nw = par_new_word v w (inverted_bit_mask_for_range b e)"
    using loc Retry by (simp_all add: par_local_def b_def e_def v_def)
  have be: "b < e" and sw': "e \<le> 64 * (b div 64) + 64" and pwl: "pw < length (bm_map bm)"
    using sw ne by (auto simp add: single_word_range_iff b_def e_def pw_def)
  show ?thesis
  proof (cases "bm_map bm ! pw = w")
    case True
    have bm': "bm' = bm\<lparr>bm_map := (bm_map bm)[pw := nw]\<rparr>" and t': "t' = t\<lparr>pp_pc := Done\<rparr>"
      using st Retry True
      by (simp_all add: par_put_range_within_word_step.simps Let_def cmpxchg_def word_index_div
          b_def pw_def)
    have bits: "bit (bm_map bm' ! j) k = (if in_range b e j k then v else bit (bm_map bm ! j) k)"
      if j: "j < length (bm_map bm)" and k: "k < 64" for j k
    proof (cases "j = pw")
      case jp: True
      have "bit (bm_map bm' ! j) k = bit nw k" using bm' jp pwl by simp
      also have "\<dots> = (if in_range b e j k then v else bit w k)"
        unfolding nw in_range_def using par_new_word_bit[OF be sw' k, of v w] jp by (simp add: pw_def)
      finally show ?thesis using True jp by simp
    next
      case False
      then have "bit (bm_map bm' ! j) k = bit (bm_map bm ! j) k" using bm' by simp
      moreover have "\<not> in_range b e j k"
        using in_range_same_word[OF be sw' k] False by (simp add: pw_def)
      ultimately show ?thesis by simp
    qed
    show ?thesis
      using bm' t' Retry bits by (simp add: par_local_def b_def e_def v_def)
  next
    case False
    have "bm' = bm"
      "t' = t\<lparr>pp_pc := Retry (bm_map bm ! pw)
          (par_new_word v (bm_map bm ! pw) (inverted_bit_mask_for_range b e))\<rparr>"
      using st Retry False
      by (auto simp add: par_put_range_within_word_step.simps Let_def cmpxchg_def word_index_div
          b_def pw_def e_def v_def)
    then show ?thesis using Retry ne by (simp add: par_local_def b_def e_def v_def)
  qed
qed

lemma disjoint_in_range:
  "e1 \<le> b2 \<or> e2 \<le> b1 \<Longrightarrow> in_range b1 e1 j k \<Longrightarrow> \<not> in_range b2 e2 j k"
  by (auto simp add: in_range_def)

lemma single_word_range_length:
  "length (bm_map y) = length (bm_map x) \<Longrightarrow> single_word_range x b e \<Longrightarrow> single_word_range y b e"
  by (simp add: single_word_range_def)

lemma par_inv_step:
  assumes sw1: "single_word_range bm0 b1 e1" and sw2: "single_word_range bm0 b2 e2"
    and dj: "e1 \<le> b2 \<or> e2 \<le> b1"
    and inv: "par_inv bm0 b1 e1 v1 b2 e2 v2 cfg" and step: "par_step cfg cfg'"
  shows "par_inv bm0 b1 e1 v1 b2 e2 v2 cfg'"
  using step
proof cases
  case (first bm t1 bm' t1' t2)
  have p: "pp_beg t1 = b1" "pp_end t1 = e1" "pp_value t1 = v1"
    "pp_beg t2 = b2" "pp_end t2 = e2" "pp_value t2 = v2"
    and l: "par_local t1" "par_local t2" and ex: "par_expected bm0 t1 t2 bm"
    using inv first(1) by (simp_all add: par_inv_def)
  have len: "length (bm_map bm) = length (bm_map bm0)" and sz: "bm_size bm = bm_size bm0"
    using ex by (simp_all add: par_expected_def)
  have sw: "single_word_range bm (pp_beg t1) (pp_end t1)"
    using single_word_range_length[OF len sw1] p by simp
  note eff = thread_step_effect[OF l(1) sw first(3)]
  have ex': "par_expected bm0 t1' t2 bm'"
  proof (cases "pp_pc t1' = Done")
    case False
    then have "bm' = bm" using eff by simp
    then show ?thesis using ex False eff by (simp add: par_expected_def)
  next
    case True
    have nd: "pp_pc t1 \<noteq> Done" using eff by simp
    show ?thesis
      unfolding par_expected_def
    proof (intro conjI allI impI)
      show "bm_size bm' = bm_size bm0" using eff sz by simp
      show "length (bm_map bm') = length (bm_map bm0)" using eff len by simp
    next
      fix j k :: nat assume j: "j < length (bm_map bm0)" and k: "k < 64"
      have 1: "bit (bm_map bm' ! j) k = (if in_range b1 e1 j k then v1 else bit (bm_map bm ! j) k)"
        using eff True j k len p by simp
      have 2: "bit (bm_map bm ! j) k =
          (if pp_pc t2 = Done \<and> in_range b2 e2 j k then v2 else bit (bm_map bm0 ! j) k)"
        using ex j k nd p by (simp add: par_expected_def in_range_def)
      show "bit (bm_map bm' ! j) k =
         (if pp_pc t1' = Done \<and> pp_beg t1' \<le> 64 * j + k \<and> 64 * j + k < pp_end t1' then pp_value t1'
          else if pp_pc t2 = Done \<and> pp_beg t2 \<le> 64 * j + k \<and> 64 * j + k < pp_end t2 then pp_value t2
          else bit (bm_map bm0 ! j) k)"
        unfolding 1 2 using True eff p by (simp add: in_range_def)
    qed
  qed
  show ?thesis
    unfolding first(2) par_inv_def using eff p l(2) ex' by simp
next
  case (second bm t2 bm' t2' t1)
  have p: "pp_beg t1 = b1" "pp_end t1 = e1" "pp_value t1 = v1"
    "pp_beg t2 = b2" "pp_end t2 = e2" "pp_value t2 = v2"
    and l: "par_local t1" "par_local t2" and ex: "par_expected bm0 t1 t2 bm"
    using inv second(1) by (simp_all add: par_inv_def)
  have len: "length (bm_map bm) = length (bm_map bm0)" and sz: "bm_size bm = bm_size bm0"
    using ex by (simp_all add: par_expected_def)
  have sw: "single_word_range bm (pp_beg t2) (pp_end t2)"
    using single_word_range_length[OF len sw2] p by simp
  note eff = thread_step_effect[OF l(2) sw second(3)]
  have ex': "par_expected bm0 t1 t2' bm'"
  proof (cases "pp_pc t2' = Done")
    case False
    then have "bm' = bm" using eff by simp
    then show ?thesis using ex False eff by (simp add: par_expected_def)
  next
    case True
    have nd: "pp_pc t2 \<noteq> Done" using eff by simp
    show ?thesis
      unfolding par_expected_def
    proof (intro conjI allI impI)
      show "bm_size bm' = bm_size bm0" using eff sz by simp
      show "length (bm_map bm') = length (bm_map bm0)" using eff len by simp
    next
      fix j k :: nat assume j: "j < length (bm_map bm0)" and k: "k < 64"
      have 1: "bit (bm_map bm' ! j) k = (if in_range b2 e2 j k then v2 else bit (bm_map bm ! j) k)"
        using eff True j k len p by simp
      have 2: "bit (bm_map bm ! j) k =
          (if pp_pc t1 = Done \<and> in_range b1 e1 j k then v1 else bit (bm_map bm0 ! j) k)"
        using ex j k nd p by (simp add: par_expected_def in_range_def)
      have 3: "in_range b1 e1 j k \<Longrightarrow> \<not> in_range b2 e2 j k"
        using dj by (rule disjoint_in_range)
      show "bit (bm_map bm' ! j) k =
         (if pp_pc t1 = Done \<and> pp_beg t1 \<le> 64 * j + k \<and> 64 * j + k < pp_end t1 then pp_value t1
          else if pp_pc t2' = Done \<and> pp_beg t2' \<le> 64 * j + k \<and> 64 * j + k < pp_end t2' then pp_value t2'
          else bit (bm_map bm0 ! j) k)"
        unfolding 1 2 using True eff p 3 by (auto simp add: in_range_def)
    qed
  qed
  show ?thesis
    unfolding second(2) par_inv_def using eff p l(1) ex' by simp
qed

lemma par_inv_run:
  assumes "single_word_range bm0 b1 e1" "single_word_range bm0 b2 e2" "e1 \<le> b2 \<or> e2 \<le> b1"
    and "rtranclp par_step cfg cfg'" and "par_inv bm0 b1 e1 v1 b2 e2 v2 cfg"
  shows "par_inv bm0 b1 e1 v1 b2 e2 v2 cfg'"
  using assms(4,5)
proof (induction rule: rtranclp_induct)
  case base
  then show ?case .
next
  case (step y z)
  then show ?case using par_inv_step[OF assms(1,2,3)] by blast
qed

text \<open>
  Claim C4. Two threads run \<^verbatim>\<open>par_put_range_within_word\<close> on disjoint single-word
  ranges of the same bitmap (in particular on different bits of the same word), under any
  interleaving of their steps. In every configuration the run reaches, a bit of the range
  of a thread that has returned holds that thread's value, and every other bit holds
  what it held at the start: no update is lost, whichever thread's \<^verbatim>\<open>cmpxchg\<close> came
  first and however often the other one had to retry.
\<close>

theorem par_put_no_lost_update_C4:
  assumes "single_word_range bm0 beg1 end1" and "single_word_range bm0 beg2 end2"
    and "end1 \<le> beg2 \<or> end2 \<le> beg1"
    and "rtranclp par_step (bm0, par_put_start beg1 end1 v1, par_put_start beg2 end2 v2) (bm, t1, t2)"
    and "i < BitsPerWord * length (bm_map bm0)"
  shows "bm_at bm i =
           (if pp_pc t1 = Done \<and> beg1 \<le> i \<and> i < end1 then v1
            else if pp_pc t2 = Done \<and> beg2 \<le> i \<and> i < end2 then v2
            else bm_at bm0 i)"
proof -
  have "par_inv bm0 beg1 end1 v1 beg2 end2 v2 (bm, t1, t2)"
    using par_inv_run[OF assms(1,2,3,4) par_inv_init] .
  then have p: "pp_beg t1 = beg1" "pp_end t1 = end1" "pp_value t1 = v1"
    "pp_beg t2 = beg2" "pp_end t2 = end2" "pp_value t2 = v2"
    and ex: "par_expected bm0 t1 t2 bm"
    by (simp_all add: par_inv_def)
  have j: "i div 64 < length (bm_map bm0)"
    using assms(5) by (simp add: BitsPerWord_def div_less_iff_less_mult)
  have k: "i mod 64 < 64" by simp
  have e: "64 * (i div 64) + i mod 64 = i" by simp
  have "bit (bm_map bm ! (i div 64)) (i mod 64) =
          (if pp_pc t1 = Done \<and> pp_beg t1 \<le> i \<and> i < pp_end t1 then pp_value t1
           else if pp_pc t2 = Done \<and> pp_beg t2 \<le> i \<and> i < pp_end t2 then pp_value t2
           else bit (bm_map bm0 ! (i div 64)) (i mod 64))"
  proof -
    have "\<forall>j<length (bm_map bm0). \<forall>k<64. bit (bm_map bm ! j) k =
          (if pp_pc t1 = Done \<and> pp_beg t1 \<le> 64 * j + k \<and> 64 * j + k < pp_end t1 then pp_value t1
           else if pp_pc t2 = Done \<and> pp_beg t2 \<le> 64 * j + k \<and> 64 * j + k < pp_end t2 then pp_value t2
           else bit (bm_map bm0 ! j) k)"
      using ex by (simp add: par_expected_def)
    from this[rule_format, OF j k] show ?thesis unfolding e .
  qed
  then show ?thesis unfolding bm_at_bit p .
qed

text \<open>A thread that has not returned can always take its next step.\<close>

lemma par_put_progress:
  "pp_pc t \<noteq> Done \<Longrightarrow> \<exists>bm' t'. par_put_range_within_word_step bm t = Some (bm', t')"
  by (cases "pp_pc t")
     (auto simp add: par_put_range_within_word_step.simps Let_def split_beta)

text \<open>
  A run in which a \<^verbatim>\<open>cmpxchg\<close> fails: both threads read the word 0, the second thread
  stores its bit 1, the first thread's \<^verbatim>\<open>cmpxchg\<close> finds 2 instead of 0 and retries from 2.
\<close>

lemmas par_eval = par_put_range_within_word_step.simps par_thread_def Let_def cmpxchg_def
  par_new_word_def inverted_bit_mask_for_range_def bit_mask_def bit_in_word_def word_index_def
  BitsPerWord_def LogBitsPerWord_def drop_bit_eq_div bm_zero_word_def

lemma par_run_steps:
  "par_step (bm_zero_word, par_thread 0 1 Start, par_thread 1 2 Start)
            (bm_zero_word, par_thread 0 1 (Retry 0 1), par_thread 1 2 Start)"
  "par_step (bm_zero_word, par_thread 0 1 (Retry 0 1), par_thread 1 2 Start)
            (bm_zero_word, par_thread 0 1 (Retry 0 1), par_thread 1 2 (Retry 0 2))"
  "par_step (bm_zero_word, par_thread 0 1 (Retry 0 1), par_thread 1 2 (Retry 0 2))
            (\<lparr>bm_map = [2], bm_size = 64\<rparr>, par_thread 0 1 (Retry 0 1), par_thread 1 2 Done)"
  "par_step (\<lparr>bm_map = [2], bm_size = 64\<rparr>, par_thread 0 1 (Retry 0 1), par_thread 1 2 Done)
            (\<lparr>bm_map = [2], bm_size = 64\<rparr>, par_thread 0 1 (Retry 2 3), par_thread 1 2 Done)"
  "par_step (\<lparr>bm_map = [2], bm_size = 64\<rparr>, par_thread 0 1 (Retry 2 3), par_thread 1 2 Done)
            (\<lparr>bm_map = [3], bm_size = 64\<rparr>, par_thread 0 1 Done, par_thread 1 2 Done)"
proof -
  show "par_step (bm_zero_word, par_thread 0 1 Start, par_thread 1 2 Start)
            (bm_zero_word, par_thread 0 1 (Retry 0 1), par_thread 1 2 Start)"
    by (rule par_step.first) (simp add: par_eval)
  show "par_step (bm_zero_word, par_thread 0 1 (Retry 0 1), par_thread 1 2 Start)
            (bm_zero_word, par_thread 0 1 (Retry 0 1), par_thread 1 2 (Retry 0 2))"
    by (rule par_step.second) (simp add: par_eval)
  show "par_step (bm_zero_word, par_thread 0 1 (Retry 0 1), par_thread 1 2 (Retry 0 2))
            (\<lparr>bm_map = [2], bm_size = 64\<rparr>, par_thread 0 1 (Retry 0 1), par_thread 1 2 Done)"
    by (rule par_step.second) (simp add: par_eval)
  show "par_step (\<lparr>bm_map = [2], bm_size = 64\<rparr>, par_thread 0 1 (Retry 0 1), par_thread 1 2 Done)
            (\<lparr>bm_map = [2], bm_size = 64\<rparr>, par_thread 0 1 (Retry 2 3), par_thread 1 2 Done)"
    by (rule par_step.first) (simp add: par_eval)
  show "par_step (\<lparr>bm_map = [2], bm_size = 64\<rparr>, par_thread 0 1 (Retry 2 3), par_thread 1 2 Done)
            (\<lparr>bm_map = [3], bm_size = 64\<rparr>, par_thread 0 1 Done, par_thread 1 2 Done)"
    by (rule par_step.first) (simp add: par_eval)
qed

lemma par_run:
  "rtranclp par_step (bm_zero_word, par_put_start 0 1 True, par_put_start 1 2 True)
     (\<lparr>bm_map = [3], bm_size = 64\<rparr>, par_thread 0 1 Done, par_thread 1 2 Done)"
proof -
  have s: "par_put_start 0 1 True = par_thread 0 1 Start" "par_put_start 1 2 True = par_thread 1 2 Start"
    by (simp_all add: par_put_start_def par_thread_def)
  have "rtranclp par_step (bm_zero_word, par_thread 0 1 Start, par_thread 1 2 Start)
          (bm_zero_word, par_thread 0 1 (Retry 0 1), par_thread 1 2 Start)"
    using par_run_steps(1) by (rule r_into_rtranclp)
  then have "rtranclp par_step (bm_zero_word, par_thread 0 1 Start, par_thread 1 2 Start)
          (bm_zero_word, par_thread 0 1 (Retry 0 1), par_thread 1 2 (Retry 0 2))"
    using par_run_steps(2) by (rule rtranclp.rtrancl_into_rtrancl)
  then have "rtranclp par_step (bm_zero_word, par_thread 0 1 Start, par_thread 1 2 Start)
          (\<lparr>bm_map = [2], bm_size = 64\<rparr>, par_thread 0 1 (Retry 0 1), par_thread 1 2 Done)"
    using par_run_steps(3) by (rule rtranclp.rtrancl_into_rtrancl)
  then have "rtranclp par_step (bm_zero_word, par_thread 0 1 Start, par_thread 1 2 Start)
          (\<lparr>bm_map = [2], bm_size = 64\<rparr>, par_thread 0 1 (Retry 2 3), par_thread 1 2 Done)"
    using par_run_steps(4) by (rule rtranclp.rtrancl_into_rtrancl)
  then have "rtranclp par_step (bm_zero_word, par_thread 0 1 Start, par_thread 1 2 Start)
          (\<lparr>bm_map = [3], bm_size = 64\<rparr>, par_thread 0 1 Done, par_thread 1 2 Done)"
    using par_run_steps(5) by (rule rtranclp.rtrancl_into_rtrancl)
  then show ?thesis unfolding s .
qed

theorem par_put_no_lost_update_C4_witness:
  "single_word_range bm_zero_word 0 1 \<and> single_word_range bm_zero_word 1 2
   \<and> ((1::nat) \<le> 1 \<or> (2::nat) \<le> 0)
   \<and> rtranclp par_step (bm_zero_word, par_put_start 0 1 True, par_put_start 1 2 True)
        (\<lparr>bm_map = [3], bm_size = 64\<rparr>, par_thread 0 1 Done, par_thread 1 2 Done)
   \<and> (0::nat) < BitsPerWord * length (bm_map bm_zero_word)
   \<and> bm_at \<lparr>bm_map = [3], bm_size = 64\<rparr> 0
   \<and> bm_at \<lparr>bm_map = [3], bm_size = 64\<rparr> 1
   \<and> bm_at \<lparr>bm_map = [3], bm_size = 64\<rparr> 2 = bm_at bm_zero_word 2"
proof -
  have sw1: "single_word_range bm_zero_word 0 1" and sw2: "single_word_range bm_zero_word 1 2"
    by (simp_all add: single_word_range_def bm_zero_word_def BitsPerWord_def word_index_def
        LogBitsPerWord_def drop_bit_eq_div)
  have dj: "(1::nat) \<le> 1 \<or> (2::nat) \<le> 0" by simp
  have i: "(0::nat) < BitsPerWord * length (bm_map bm_zero_word)"
    "(1::nat) < BitsPerWord * length (bm_map bm_zero_word)"
    "(2::nat) < BitsPerWord * length (bm_map bm_zero_word)"
    by (simp_all add: BitsPerWord_def bm_zero_word_def)
  note t = par_put_no_lost_update_C4[OF sw1 sw2 dj par_run]
  have d: "pp_pc (par_thread 0 1 Done) = Done" "pp_pc (par_thread 1 2 Done) = Done"
    by (simp_all add: par_thread_def)
  have 0: "bm_at \<lparr>bm_map = [3], bm_size = 64\<rparr> 0" using t[OF i(1)] d by simp
  have 1: "bm_at \<lparr>bm_map = [3], bm_size = 64\<rparr> 1" using t[OF i(2)] d by simp
  have 2: "bm_at \<lparr>bm_map = [3], bm_size = 64\<rparr> 2 = bm_at bm_zero_word 2" using t[OF i(3)] d by simp
  show ?thesis using sw1 sw2 dj par_run i(1) 0 1 2 by simp
qed

lemma par_weight_other: "par_weight bm' t \<le> par_weight bm t + 1"
  by (cases "pp_pc t") (simp_all add: par_weight_def)

lemma par_weight_step:
  assumes "par_put_range_within_word_step bm t = Some (bm', t')"
  shows "(bm' = bm \<and> par_weight bm' t' < par_weight bm t)
       \<or> par_weight bm' t' + 5 \<le> par_weight bm t"
proof (cases "pp_pc t")
  case Start
  then show ?thesis
    using assms
    by (cases "pp_beg t = pp_end t")
       (auto simp add: par_put_range_within_word_step.simps Let_def par_weight_def)
next
  case (Retry w nw)
  then show ?thesis
    using assms
    by (cases "bm_map bm ! word_index (pp_beg t) = w")
       (auto simp add: par_put_range_within_word_step.simps Let_def par_weight_def cmpxchg_def)
next
  case Done
  then show ?thesis using assms by (simp add: par_put_range_within_word_step.simps)
qed

lemma par_step_measure: "par_step cfg cfg' \<Longrightarrow> par_measure cfg' < par_measure cfg"
proof (induction rule: par_step.induct)
  case (first bm t1 bm' t1' t2)
  show ?case
    using par_weight_step[OF first] par_weight_other[of bm' t2 bm]
    by (auto simp add: par_measure_def)
next
  case (second bm t2 bm' t2' t1)
  show ?case
    using par_weight_step[OF second] par_weight_other[of bm' t1 bm]
    by (auto simp add: par_measure_def)
qed

lemma par_step_wf: "wf {(cfg', cfg). par_step cfg cfg'}"
proof (rule wf_subset)
  show "wf (measure par_measure)" by simp
  show "{(cfg', cfg). par_step cfg cfg'} \<subseteq> measure par_measure"
    using par_step_measure by auto
qed

text \<open>A configuration has no next step exactly when both threads have returned.\<close>

lemma par_final_iff:
  "(\<nexists>cfg'. par_step (bm, t1, t2) cfg') \<longleftrightarrow> pp_pc t1 = Done \<and> pp_pc t2 = Done"
proof
  assume n: "\<nexists>cfg'. par_step (bm, t1, t2) cfg'"
  show "pp_pc t1 = Done \<and> pp_pc t2 = Done"
  proof (rule ccontr)
    assume "\<not> (pp_pc t1 = Done \<and> pp_pc t2 = Done)"
    then consider "pp_pc t1 \<noteq> Done" | "pp_pc t2 \<noteq> Done" by blast
    then show False
    proof cases
      case 1
      then obtain bm' t' where "par_put_range_within_word_step bm t1 = Some (bm', t')"
        using par_put_progress by blast
      then have "par_step (bm, t1, t2) (bm', t', t2)" by (rule par_step.first)
      then show False using n by blast
    next
      case 2
      then obtain bm' t' where "par_put_range_within_word_step bm t2 = Some (bm', t')"
        using par_put_progress by blast
      then have "par_step (bm, t1, t2) (bm', t1, t')" by (rule par_step.second)
      then show False using n by blast
    qed
  qed
next
  assume d: "pp_pc t1 = Done \<and> pp_pc t2 = Done"
  show "\<nexists>cfg'. par_step (bm, t1, t2) cfg'"
  proof
    assume "\<exists>cfg'. par_step (bm, t1, t2) cfg'"
    then obtain cfg' where "par_step (bm, t1, t2) cfg'" by blast
    then show False
      using d by cases (simp_all add: par_put_range_within_word_step.simps)
  qed
qed

end
